theory Spec2Isabelle
  imports Main
begin

section \<open>Text: Python strings as lists of code points\<close>

text \<open>
  A Python \<^verbatim>\<open>str\<close> is a sequence of Unicode code points; indexing, slicing and
  \<^verbatim>\<open>len\<close> count code points. A character is therefore a natural number (its code
  point) and a string a list of them. Dictionary keys of the records are plain ASCII
  names and are kept as HOL strings.
\<close>

type_synonym ustr = "nat list"

text \<open>
  \<^verbatim>\<open>str.strip()\<close> without argument removes leading and trailing characters for which
  \<^verbatim>\<open>str.isspace\<close> holds: U+0009..U+000D, U+001C..U+0020, U+0085, U+00A0, U+1680,
  U+2000..U+200A, U+2028, U+2029, U+202F, U+205F, U+3000.
\<close>

definition py_isspace :: "nat \<Rightarrow> bool" where
  "py_isspace c \<longleftrightarrow>
     (9 \<le> c \<and> c \<le> 13) \<or> (28 \<le> c \<and> c \<le> 32) \<or> c = 133 \<or> c = 160 \<or> c = 5760 \<or>
     (8192 \<le> c \<and> c \<le> 8202) \<or> c = 8232 \<or> c = 8233 \<or> c = 8239 \<or> c = 8287 \<or> c = 12288"

definition strip :: "ustr \<Rightarrow> ustr" where
  "strip s = rev (dropWhile py_isspace (rev (dropWhile py_isspace s)))"

text \<open>
  \<^verbatim>\<open>s.split('\n\n')\<close>: the separator is searched from the left, occurrences do not
  overlap, and the result always has at least one element.
\<close>

fun split_blank :: "ustr \<Rightarrow> ustr list" where
  "split_blank [] = [[]]"
| "split_blank [a] = [[a]]"
| "split_blank (a # b # s) =
     (if a = 10 \<and> b = 10 then [] # split_blank s
      else (case split_blank (b # s) of [] \<Rightarrow> [[a]] | x # xs \<Rightarrow> (a # x) # xs))"

text \<open>\<^verbatim>\<open>s.split('\n')\<close>.\<close>

fun split_nl :: "ustr \<Rightarrow> ustr list" where
  "split_nl [] = [[]]"
| "split_nl (c # s) =
     (if c = 10 then [] # split_nl s
      else (case split_nl s of [] \<Rightarrow> [[c]] | x # xs \<Rightarrow> (c # x) # xs))"

text \<open>The decimal rendering of a non-negative integer inside an f-string.\<close>

function show_nat :: "nat \<Rightarrow> ustr" where
  "show_nat n = (if n < 10 then [48 + n] else show_nat (n div 10) @ [48 + n mod 10])"
  by pat_completeness auto
termination
  by (relation "measure (\<lambda>n. n)") auto

declare show_nat.simps [simp del]

section \<open>The structural pattern of a reply block\<close>

text \<open>
  The source validates a block with
  \<^verbatim>\<open>re.compile(r".+\n.+\n.+\n[A-C]\n\d+\n(\u662f|\u5426)").match(block)\<close>:
  anchored at the start of the block, not at its end. The dot matches every character
  but the newline. On a \<^verbatim>\<open>str\<close> pattern \<^verbatim>\<open>\d\<close> matches every Unicode decimal
  digit: below U+0080 these are exactly \<^verbatim>\<open>0\<close>..\<^verbatim>\<open>9\<close>; the table of the others
  belongs to the Python runtime and is the parameter \<open>nd\<close>.
\<close>

definition re_dot :: "nat \<Rightarrow> bool" where
  "re_dot c \<longleftrightarrow> c \<noteq> 10"

definition re_digit :: "(nat \<Rightarrow> bool) \<Rightarrow> nat \<Rightarrow> bool" where
  "re_digit nd c \<longleftrightarrow> (48 \<le> c \<and> c \<le> 57) \<or> (128 \<le> c \<and> nd c)"

text \<open>
  \<open>plus_nl P s\<close> matches \<^verbatim>\<open>P+\n\<close> at the start of \<open>s\<close> and returns the rest. Both
  classes used here exclude the newline, so the greedy run is the only one after which
  the newline can match: backtracking into the run never succeeds.
\<close>

definition plus_nl :: "(nat \<Rightarrow> bool) \<Rightarrow> ustr \<Rightarrow> ustr option" where
  "plus_nl P s =
     (if takeWhile P s = [] then None
      else (case dropWhile P s of [] \<Rightarrow> None | c # t \<Rightarrow> if c = 10 then Some t else None))"

definition cat_nl :: "ustr \<Rightarrow> ustr option" where
  "cat_nl s =
     (case s of c # n # t \<Rightarrow> if (c = 65 \<or> c = 66 \<or> c = 67) \<and> n = 10 then Some t else None
      | _ \<Rightarrow> None)"

definition boundary_mark :: "ustr \<Rightarrow> bool" where
  "boundary_mark s = (case s of [] \<Rightarrow> False | c # _ \<Rightarrow> c = 26159 \<or> c = 21542)"

definition valid_pattern_match :: "(nat \<Rightarrow> bool) \<Rightarrow> ustr \<Rightarrow> bool" where
  "valid_pattern_match nd s =
     (case Option.bind (Option.bind (Option.bind (Option.bind (plus_nl re_dot s)
             (plus_nl re_dot)) (plus_nl re_dot)) cat_nl) (plus_nl (re_digit nd)) of
        None \<Rightarrow> False
      | Some rest \<Rightarrow> boundary_mark rest)"

section \<open>Records and the response parser\<close>

text \<open>
  A record is the dictionary the source builds: keys in insertion order. A record is an
  error record when it has the key \<^verbatim>\<open>error\<close> (the test the source itself uses).
\<close>

type_synonym entry = "(string \<times> ustr) list"

datatype exn = ValueError ustr | KeyError string | RangeStepZero

text \<open>\<^verbatim>\<open>str(e)\<close>: the message of a ValueError, the quoted key of a KeyError.\<close>

fun str_exn :: "exn \<Rightarrow> ustr" where
  "str_exn (ValueError m) = m"
| "str_exn (KeyError k) = [39] @ map of_char k @ [39]"
| "str_exn RangeStepZero = map of_char ''range() arg 3 must not be zero''"

text \<open>
  The message texts of the source are Chinese; they are given by their code points.
  \<open>MSG_FORMAT\<close> says that the response format is not as expected, \<open>MSG_LINES\<close> that
  the response has too few lines, \<open>MSG_PARSE_PREFIX\<close> is the prefix "parse error: " of
  the handler, \<open>MSG_MISSING\<close> says that no result for the word was found in the
  response. The boundary marks are U+662F (yes) and U+5426 (no).
\<close>

definition MSG_FORMAT :: ustr where
  "MSG_FORMAT = [21709, 24212, 26684, 24335, 19981, 31526, 21512, 39044, 26399]"

definition MSG_LINES :: ustr where
  "MSG_LINES = [21709, 24212, 34892, 25968, 19981, 36275]"

definition MSG_PARSE_PREFIX :: ustr where
  "MSG_PARSE_PREFIX = [35299, 26512, 38169, 35823, 58, 32]"

definition MSG_MISSING :: ustr where
  "MSG_MISSING = [26410, 22312, 21709, 24212, 20013, 25214, 21040, 23545, 24212, 32467, 26524]"

definition UNKNOWN :: "nat \<Rightarrow> ustr" where
  "UNKNOWN idx = [85, 78, 75, 78, 79, 87, 78, 95] @ show_nat idx"

definition block_word :: "ustr list \<Rightarrow> nat \<Rightarrow> ustr" where
  "block_word batch idx = (if idx < length batch then batch ! idx else UNKNOWN idx)"

text \<open>The body of the \<^verbatim>\<open>try\<close>, on the stripped block. The indices 1..5 are read only
  after the length check.\<close>

definition try_block :: "(nat \<Rightarrow> bool) \<Rightarrow> ustr list \<Rightarrow> nat \<Rightarrow> ustr \<Rightarrow> exn + entry" where
  "try_block nd batch idx block =
     (if \<not> valid_pattern_match nd block then Inl (ValueError MSG_FORMAT)
      else let lines = split_nl block in
        if length lines < 6 then Inl (ValueError MSG_LINES)
        else Inr [(''word'', block_word batch idx),
                  (''reason'', lines ! 1),
                  (''near_words'', lines ! 2),
                  (''category'', lines ! 3),
                  (''confidence'', lines ! 4),
                  (''is_boundary'', lines ! 5),
                  (''raw_response'', block)])"

text \<open>One iteration of the loop over the blocks: \<^verbatim>\<open>try\<close> and its handler.\<close>

definition parse_block :: "(nat \<Rightarrow> bool) \<Rightarrow> ustr list \<Rightarrow> nat \<Rightarrow> ustr \<Rightarrow> entry" where
  "parse_block nd batch idx raw =
     (let block = strip raw in
      case try_block nd batch idx block of
        Inr e \<Rightarrow> e
      | Inl ex \<Rightarrow> [(''word'', block_word batch idx),
                   (''error'', MSG_PARSE_PREFIX @ str_exn ex),
                   (''raw_response'', block)])"

fun parse_blocks :: "(nat \<Rightarrow> bool) \<Rightarrow> ustr list \<Rightarrow> nat \<Rightarrow> ustr list \<Rightarrow> entry list \<Rightarrow> entry list" where
  "parse_blocks nd batch idx [] entries = entries"
| "parse_blocks nd batch idx (b # bs) entries =
     parse_blocks nd batch (Suc idx) bs (entries @ [parse_block nd batch idx b])"

text \<open>\<^verbatim>\<open>{entry["word"] for entry in entries}\<close>: a missing key raises KeyError.\<close>

fun processed_words :: "entry list \<Rightarrow> exn + ustr list" where
  "processed_words [] = Inr []"
| "processed_words (e # es) =
     (case map_of e ''word'' of
        None \<Rightarrow> Inl (KeyError ''word'')
      | Some w \<Rightarrow> (case processed_words es of Inl ex \<Rightarrow> Inl ex | Inr ws \<Rightarrow> Inr (w # ws)))"

definition missing_entry :: "ustr \<Rightarrow> ustr \<Rightarrow> entry" where
  "missing_entry response_text w =
     [(''word'', w), (''error'', MSG_MISSING),
      (''raw_response'', take 200 response_text @ [46, 46, 46])]"

fun add_missing :: "ustr \<Rightarrow> ustr list \<Rightarrow> ustr list \<Rightarrow> entry list \<Rightarrow> entry list" where
  "add_missing response_text pw [] entries = entries"
| "add_missing response_text pw (w # ws) entries =
     add_missing response_text pw ws
       (if w \<notin> set pw then entries @ [missing_entry response_text w] else entries)"

definition parse_response :: "(nat \<Rightarrow> bool) \<Rightarrow> ustr \<Rightarrow> ustr list \<Rightarrow> exn + entry list" where
  "parse_response nd response_text batch =
     (let raw_blocks = split_blank (strip response_text);
          entries = parse_blocks nd batch 0 raw_blocks []
      in case processed_words entries of
           Inl ex \<Rightarrow> Inl ex
         | Inr pw \<Rightarrow> Inr (add_missing response_text pw batch entries))"

definition is_error :: "entry \<Rightarrow> bool" where
  "is_error e \<longleftrightarrow> map_of e ''error'' \<noteq> None"

definition entry_word :: "entry \<Rightarrow> ustr option" where
  "entry_word e = map_of e ''word''"

text \<open>
  What the pattern amounts to on the lines of the block: at least six lines, the first
  three non-empty, the fourth exactly one category letter, the fifth a non-empty run of
  decimal digits, the sixth beginning with one of the two boundary marks.
\<close>

definition six_line_shape :: "(nat \<Rightarrow> bool) \<Rightarrow> ustr list \<Rightarrow> bool" where
  "six_line_shape nd ls \<longleftrightarrow>
     6 \<le> length ls \<and> ls ! 0 \<noteq> [] \<and> ls ! 1 \<noteq> [] \<and> ls ! 2 \<noteq> [] \<and>
     (ls ! 3 = [65] \<or> ls ! 3 = [66] \<or> ls ! 3 = [67]) \<and>
     ls ! 4 \<noteq> [] \<and> list_all (re_digit nd) (ls ! 4) \<and> boundary_mark (ls ! 5)"

section \<open>The batch runner\<close>

text \<open>
  The environment of a run: the two settings read from the process environment, the
  fixed instruction text of the prompt, and what lies outside the repository: the model
  service (\<open>client E k prompt\<close> is the outcome of the \<open>k\<close>-th request of the run,
  \<open>Inl\<close> the text of the exception it raises), the address of the object in which
  the retry decorator keeps the outcome of the \<open>k\<close>-th request, and the table of
  non-ASCII decimal digits.
  A retry limit below one behaves as one: the decorator stops after an attempt whose
  number has reached the limit.

  The model covers the runs in which the reply of the service is a string and in which
  writing the artifacts and the progress file succeeds; sizes, offsets and batch numbers
  are natural numbers. Console output is left out.
\<close>

record env =
  BATCH_SIZE :: nat
  MAX_RETRIES :: nat
  template :: ustr
  client :: "nat \<Rightarrow> ustr \<Rightarrow> ustr + ustr"
  future_id :: "nat \<Rightarrow> nat"
  unicode_nd :: "nat \<Rightarrow> bool"

record progress =
  last_index :: nat
  processed :: nat
  batches :: "nat list"

text \<open>The effects of a run, in order. Requests, retries' pauses and the two per-batch
  artifacts carry the batch number.\<close>

datatype event =
    ApiCall nat ustr
  | Backoff nat
  | WriteResults nat "entry list"
  | WriteErrors nat "entry list"
  | WriteProgress progress
  | Sleep
  | Aggregate

fun event_batch :: "event \<Rightarrow> nat option" where
  "event_batch (ApiCall n _) = Some n"
| "event_batch (Backoff n) = Some n"
| "event_batch (WriteResults n _) = Some n"
| "event_batch (WriteErrors n _) = Some n"
| "event_batch (WriteProgress _) = None"
| "event_batch Sleep = None"
| "event_batch Aggregate = None"

fun is_write :: "event \<Rightarrow> bool" where
  "is_write (WriteResults _ _) = True"
| "is_write (WriteErrors _ _) = True"
| "is_write (WriteProgress _) = True"
| "is_write _ = False"

record run_state =
  prog :: progress
  trace :: "event list"
  requests :: nat

definition load_progress :: "progress option \<Rightarrow> progress" where
  "load_progress f =
     (case f of Some p \<Rightarrow> p | None \<Rightarrow> \<lparr>last_index = 0, processed = 0, batches = []\<rparr>)"

fun add_words :: "ustr \<Rightarrow> nat \<Rightarrow> ustr list \<Rightarrow> ustr" where
  "add_words prompt i [] = prompt"
| "add_words prompt i (w # ws) =
     add_words (prompt @ [10, 35789, 35821, 32] @ show_nat i @ [65306] @ w) (Suc i) ws"

definition build_prompt :: "env \<Rightarrow> ustr list \<Rightarrow> ustr" where
  "build_prompt E word_batch = add_words (template E) 1 word_batch"

definition MSG_API_FAILED :: ustr where
  "MSG_API_FAILED =
     [68, 101, 101, 112, 83, 101, 101, 107, 32, 65, 80, 73, 35843, 29992, 22833, 36133, 58, 32]"

text \<open>One attempt of \<^verbatim>\<open>process_batch\<close>: the request, and the exception rewrapped.\<close>

definition process_batch :: "env \<Rightarrow> ustr list \<Rightarrow> nat \<Rightarrow> run_state \<Rightarrow> (ustr + ustr) \<times> run_state" where
  "process_batch E batch batch_num s =
     (let prompt = build_prompt E batch;
          s' = s\<lparr>trace := trace s @ [ApiCall batch_num prompt], requests := Suc (requests s)\<rparr>
      in case client E (requests s) prompt of
           Inr content \<Rightarrow> (Inr content, s')
         | Inl e \<Rightarrow> (Inl (MSG_API_FAILED @ e), s'))"

text \<open>
  The decorator is applied without \<^verbatim>\<open>reraise\<close>: when it gives up it raises its own
  \<^verbatim>\<open>RetryError\<close>, and \<^verbatim>\<open>str\<close> of that error is
  \<^verbatim>\<open>RetryError[<Future at 0x... state=finished raised Exception>]\<close>, with the address
  of the last attempt's outcome in hexadecimal. The message of the exception that
  \<^verbatim>\<open>process_batch\<close> raised is not part of it.
\<close>

definition hex_digit :: "nat \<Rightarrow> nat" where
  "hex_digit d = (if d < 10 then 48 + d else 87 + d)"

function show_hex :: "nat \<Rightarrow> ustr" where
  "show_hex n = (if n < 16 then [hex_digit n] else show_hex (n div 16) @ [hex_digit (n mod 16)])"
  by pat_completeness auto
termination
  by (relation "measure (\<lambda>n. n)") auto

declare show_hex.simps [simp del]

definition retry_error_text :: "nat \<Rightarrow> ustr" where
  "retry_error_text addr =
     [82, 101, 116, 114, 121, 69, 114, 114, 111, 114, 91, 60, 70, 117, 116, 117, 114, 101, 32,
      97, 116, 32, 48, 120] @ show_hex addr @
     [32, 115, 116, 97, 116, 101, 61, 102, 105, 110, 105, 115, 104, 101, 100, 32, 114, 97, 105,
      115, 101, 100, 32, 69, 120, 99, 101, 112, 116, 105, 111, 110, 62, 93]"

text \<open>The retry decorator; the first argument counts the attempts left after this one.
  The request made in state \<open>s\<close> is request number \<open>requests s\<close> of the run.\<close>

fun retrying :: "env \<Rightarrow> nat \<Rightarrow> ustr list \<Rightarrow> nat \<Rightarrow> run_state \<Rightarrow> (ustr + ustr) \<times> run_state" where
  "retrying E 0 batch batch_num s =
     (case process_batch E batch batch_num s of
        (Inr r, s') \<Rightarrow> (Inr r, s')
      | (Inl m, s') \<Rightarrow> (Inl (retry_error_text (future_id E (requests s))), s'))"
| "retrying E (Suc n) batch batch_num s =
     (case process_batch E batch batch_num s of
        (Inr r, s') \<Rightarrow> (Inr r, s')
      | (Inl m, s') \<Rightarrow> retrying E n batch batch_num (s'\<lparr>trace := trace s' @ [Backoff batch_num]\<rparr>))"

definition process_batch_retry :: "env \<Rightarrow> ustr list \<Rightarrow> nat \<Rightarrow> run_state \<Rightarrow> (ustr + ustr) \<times> run_state" where
  "process_batch_retry E batch batch_num s = retrying E (MAX_RETRIES E - 1) batch batch_num s"

definition error_entry :: "ustr \<Rightarrow> ustr \<Rightarrow> entry" where
  "error_entry msg w = [(''word'', w), (''error'', msg)]"

text \<open>The \<^verbatim>\<open>except\<close> branch of the loop body.\<close>

definition batch_failed :: "env \<Rightarrow> nat \<Rightarrow> ustr list \<Rightarrow> nat \<Rightarrow> ustr \<Rightarrow> run_state \<Rightarrow> run_state" where
  "batch_failed E i batch batch_num msg s =
     (let error_entries = map (error_entry msg) batch;
          s1 = s\<lparr>trace := trace s @ [WriteErrors batch_num error_entries]\<rparr>;
          p = (prog s1)\<lparr>last_index := i + BATCH_SIZE E,
                        batches := batches (prog s1) @ [batch_num]\<rparr>
      in s1\<lparr>prog := p, trace := trace s1 @ [WriteProgress p]\<rparr>)"

text \<open>The rest of the \<^verbatim>\<open>try\<close> branch once the reply is parsed.\<close>

definition batch_succeeded :: "env \<Rightarrow> nat \<Rightarrow> ustr list \<Rightarrow> nat \<Rightarrow> entry list \<Rightarrow> run_state \<Rightarrow> run_state" where
  "batch_succeeded E i batch batch_num entries s =
     (let success_count = length (filter (\<lambda>e. \<not> is_error e) entries);
          error_count = length entries - success_count;
          s1 = s\<lparr>trace := trace s @ [WriteResults batch_num entries]\<rparr>;
          s2 = (if 0 < error_count
                then s1\<lparr>trace := trace s1 @ [WriteErrors batch_num (filter is_error entries)]\<rparr>
                else s1);
          p = (prog s2)\<lparr>last_index := i + BATCH_SIZE E,
                        processed := processed (prog s2) + length batch,
                        batches := batches (prog s2) @ [batch_num]\<rparr>
      in s2\<lparr>prog := p, trace := trace s2 @ [WriteProgress p]\<rparr>)"

text \<open>The body of the loop of \<^verbatim>\<open>main\<close> at start offset \<open>i\<close>. A skipped batch leaves the
  loop body at once (\<^verbatim>\<open>continue\<close>), before the pause.\<close>

definition batch_step :: "env \<Rightarrow> ustr list \<Rightarrow> nat set \<Rightarrow> run_state \<Rightarrow> nat \<Rightarrow> run_state" where
  "batch_step E words processed_batches s i =
     (let batch_num = i div BATCH_SIZE E + 1 in
      if batch_num \<in> processed_batches then s
      else
        let batch = take (BATCH_SIZE E) (drop i words);
            s' = (case process_batch_retry E batch batch_num s of
                    (Inl msg, s1) \<Rightarrow> batch_failed E i batch batch_num msg s1
                  | (Inr response_text, s1) \<Rightarrow>
                      (case parse_response (unicode_nd E) response_text batch of
                         Inl ex \<Rightarrow> batch_failed E i batch batch_num (str_exn ex) s1
                       | Inr entries \<Rightarrow> batch_succeeded E i batch batch_num entries s1))
        in s'\<lparr>trace := trace s' @ [Sleep]\<rparr>)"

text \<open>\<^verbatim>\<open>range(start, stop, step)\<close> for a step that is not negative; a zero step is
  refused by \<^verbatim>\<open>main\<close> below, as Python does.\<close>

function py_range :: "nat \<Rightarrow> nat \<Rightarrow> nat \<Rightarrow> nat list" where
  "py_range i stop step =
     (if step = 0 \<or> stop \<le> i then [] else i # py_range (i + step) stop step)"
  by pat_completeness auto
termination
  by (relation "measure (\<lambda>(i, stop, step). stop - i)") auto

declare py_range.simps [simp del]

definition main :: "env \<Rightarrow> ustr list \<Rightarrow> progress option \<Rightarrow> exn + run_state" where
  "main E words progress_file =
     (let total = length words;
          progress = load_progress progress_file;
          start_index = last_index progress;
          processed_batches = set (batches progress);
          s0 = \<lparr>prog = progress, trace = [], requests = 0\<rparr>
      in if BATCH_SIZE E = 0 then Inl RangeStepZero
         else
           let s = foldl (batch_step E words processed_batches) s0
                     (py_range start_index total (BATCH_SIZE E))
           in Inr (if total \<le> last_index (prog s) then s\<lparr>trace := trace s @ [Aggregate]\<rparr>
                   else s))"

section \<open>The aggregator\<close>

text \<open>
  A row of a per-batch table as the aggregator reads it back: every column of the table
  is a key, and a cell left empty reads as the missing value.
\<close>

datatype cell = NaN | Val ustr

type_synonym row = "(string \<times> cell) list"

record aggregate_result =
  filename :: ustr
  total_words :: nat
  success_words :: nat
  error_words :: nat

definition endswith :: "ustr \<Rightarrow> ustr \<Rightarrow> bool" where
  "endswith s suffix \<longleftrightarrow>
     length suffix \<le> length s \<and> drop (length s - length suffix) s = suffix"

fun collect_csv :: "(ustr \<times> row list) list \<Rightarrow> row list \<Rightarrow> row list" where
  "collect_csv [] all_entries = all_entries"
| "collect_csv ((name, rows) # rest) all_entries =
     collect_csv rest (if endswith name [46, 99, 115, 118] then all_entries @ rows else all_entries)"

definition counts_as_success :: "row \<Rightarrow> bool" where
  "counts_as_success e \<longleftrightarrow> map_of e ''error'' = None \<or> map_of e ''error'' = Some NaN"

definition aggregate_results :: "(ustr \<times> row list) list \<Rightarrow> aggregate_result \<times> row list" where
  "aggregate_results results_dir =
     (let all_entries = collect_csv results_dir [];
          total = length all_entries;
          success = length (filter counts_as_success all_entries);
          errors = total - success
      in (\<lparr>filename = [102, 105, 110, 97, 108, 95, 114, 101, 115, 117, 108, 116, 115, 46, 99, 115, 118],
           total_words = total, success_words = success, error_words = errors\<rparr>,
          all_entries))"

text \<open>The records of the loop over the blocks, and the words they are attributed to,
  position by position.\<close>

definition block_entries :: "(nat \<Rightarrow> bool) \<Rightarrow> ustr \<Rightarrow> ustr list \<Rightarrow> entry list" where
  "block_entries nd r batch =
     map (\<lambda>j. parse_block nd batch j (split_blank (strip r) ! j)) [0..<length (split_blank (strip r))]"

definition block_words :: "ustr \<Rightarrow> ustr list \<Rightarrow> ustr list" where
  "block_words r batch = map (block_word batch) [0..<length (split_blank (strip r))]"

text \<open>The effects of \<open>n + 1\<close> failed attempts with the pauses between them, and the
  progress values a trace writes to the progress file, in order.\<close>

fun failed_attempts :: "nat \<Rightarrow> nat \<Rightarrow> ustr \<Rightarrow> event list" where
  "failed_attempts 0 bn p = [ApiCall bn p]"
| "failed_attempts (Suc n) bn p = ApiCall bn p # Backoff bn # failed_attempts n bn p"

fun persisted :: "event list \<Rightarrow> progress list" where
  "persisted [] = []"
| "persisted (WriteProgress q # es) = q # persisted es"
| "persisted (e # es) = persisted es"

text \<open>What the two outcomes of an attempt have in common.\<close>

definition attempt_outcome :: "env \<Rightarrow> nat \<Rightarrow> nat \<Rightarrow> run_state \<Rightarrow> run_state \<Rightarrow> bool" where
  "attempt_outcome E i bn s1 s' \<longleftrightarrow>
     last_index (prog s') = i + BATCH_SIZE E \<and>
     batches (prog s') = batches (prog s1) @ [bn] \<and>
     (\<exists>evs. trace s' = trace s1 @ evs @ [WriteProgress (prog s')] \<and>
            (\<forall>e\<in>set evs. event_batch e = Some bn))"

section \<open>Lines and the pattern\<close>

lemma plus_nl_Some:
  assumes "\<And>c. P c \<Longrightarrow> c \<noteq> 10"
  shows "plus_nl P s = Some t \<longleftrightarrow> (\<exists>l. l \<noteq> [] \<and> (\<forall>c\<in>set l. P c) \<and> s = l @ 10 # t)"
proof
  assume h: "plus_nl P s = Some t"
  then have a: "takeWhile P s \<noteq> []" and b: "dropWhile P s = 10 # t"
    by (auto simp: plus_nl_def split: if_splits list.splits)
  have "s = takeWhile P s @ dropWhile P s" by simp
  with a b show "\<exists>l. l \<noteq> [] \<and> (\<forall>c\<in>set l. P c) \<and> s = l @ 10 # t"
    by (metis set_takeWhileD)
next
  assume "\<exists>l. l \<noteq> [] \<and> (\<forall>c\<in>set l. P c) \<and> s = l @ 10 # t"
  then obtain l where l: "l \<noteq> []" "\<forall>c\<in>set l. P c" "s = l @ 10 # t" by blast
  have n: "\<not> P 10" using assms by blast
  have "takeWhile P s = l" using l n by simp
  moreover have "dropWhile P s = 10 # t" using l n by simp
  ultimately show "plus_nl P s = Some t" using l by (simp add: plus_nl_def)
qed

lemma split_nl_line: "10 \<notin> set l \<Longrightarrow> split_nl (l @ 10 # t) = l # split_nl t"
  by (induction l) auto

lemma split_nl_ne: "split_nl s \<noteq> []"
  by (induction s) (auto split: list.splits)

lemma split_nl_decomp:
  "split_nl s = l # ls \<Longrightarrow> 10 \<notin> set l \<and> ((ls = [] \<and> s = l) \<or> (\<exists>t. s = l @ 10 # t \<and> ls = split_nl t))"
proof (induction s arbitrary: l ls)
  case Nil
  then show ?case by simp
next
  case (Cons c s)
  show ?case
  proof (cases "c = 10")
    case True
    with Cons.prems show ?thesis by auto
  next
    case False
    obtain x xs where x: "split_nl s = x # xs" using split_nl_ne by (cases "split_nl s") auto
    with Cons.prems False have l: "l = c # x" "ls = xs" by auto
    from Cons.IH[OF x] False l show ?thesis by auto
  qed
qed

lemma split_nl_two:
  "split_nl s = l # l' # ls \<Longrightarrow> 10 \<notin> set l \<and> (\<exists>t. s = l @ 10 # t \<and> split_nl t = l' # ls)"
  using split_nl_decomp[of s l "l' # ls"] by auto

lemma boundary_mark_first: "boundary_mark (split_nl s ! 0) = boundary_mark s"
proof (cases s)
  case Nil
  then show ?thesis by (simp add: boundary_mark_def)
next
  case (Cons c t)
  obtain x xs where x: "split_nl t = x # xs" using split_nl_ne by (cases "split_nl t") auto
  show ?thesis using Cons x by (simp add: boundary_mark_def)
qed

lemma re_dot_nl: "re_dot c \<Longrightarrow> c \<noteq> 10"
  by (simp add: re_dot_def)

lemma re_digit_nl: "re_digit nd c \<Longrightarrow> c \<noteq> 10"
  by (auto simp: re_digit_def)

lemma plus_dot_lines:
  "plus_nl re_dot s = Some t \<longleftrightarrow> (\<exists>l. l \<noteq> [] \<and> split_nl s = l # split_nl t \<and> s = l @ 10 # t)"
proof
  assume "plus_nl re_dot s = Some t"
  then obtain l where l: "l \<noteq> []" "\<forall>c\<in>set l. re_dot c" "s = l @ 10 # t"
    using plus_nl_Some[of re_dot s t] re_dot_nl by blast
  then have "10 \<notin> set l" using re_dot_nl by blast
  with l show "\<exists>l. l \<noteq> [] \<and> split_nl s = l # split_nl t \<and> s = l @ 10 # t"
    using split_nl_line by blast
next
  assume "\<exists>l. l \<noteq> [] \<and> split_nl s = l # split_nl t \<and> s = l @ 10 # t"
  then obtain l where l: "l \<noteq> []" "split_nl s = l # split_nl t" "s = l @ 10 # t" by blast
  have "10 \<notin> set l" using split_nl_decomp[OF l(2)] by simp
  then have "\<forall>c\<in>set l. re_dot c" by (auto simp: re_dot_def)
  with l show "plus_nl re_dot s = Some t"
    using plus_nl_Some[of re_dot s t] re_dot_nl by blast
qed

lemma plus_digit_lines:
  "plus_nl (re_digit nd) s = Some t \<longleftrightarrow>
     (\<exists>l. l \<noteq> [] \<and> list_all (re_digit nd) l \<and> split_nl s = l # split_nl t \<and> s = l @ 10 # t)"
proof
  assume "plus_nl (re_digit nd) s = Some t"
  then obtain l where l: "l \<noteq> []" "\<forall>c\<in>set l. re_digit nd c" "s = l @ 10 # t"
    using plus_nl_Some[of "re_digit nd" s t] re_digit_nl by blast
  then have "10 \<notin> set l" using re_digit_nl by blast
  with l show "\<exists>l. l \<noteq> [] \<and> list_all (re_digit nd) l \<and> split_nl s = l # split_nl t \<and> s = l @ 10 # t"
    using split_nl_line by (auto simp: list_all_iff)
next
  assume "\<exists>l. l \<noteq> [] \<and> list_all (re_digit nd) l \<and> split_nl s = l # split_nl t \<and> s = l @ 10 # t"
  then obtain l where l: "l \<noteq> []" "list_all (re_digit nd) l" "s = l @ 10 # t" by blast
  then show "plus_nl (re_digit nd) s = Some t"
    using plus_nl_Some[of "re_digit nd" s t] re_digit_nl by (auto simp: list_all_iff)
qed

lemma cat_nl_lines:
  "cat_nl s = Some t \<longleftrightarrow> (\<exists>c. (c = 65 \<or> c = 66 \<or> c = 67) \<and> s = c # 10 # t)"
  by (auto simp: cat_nl_def split: list.splits)

lemma valid_pattern_shape:
  "valid_pattern_match nd s \<longleftrightarrow> six_line_shape nd (split_nl s)"
proof
  assume "valid_pattern_match nd s"
  then obtain s1 s2 s3 s4 s5 where
    p1: "plus_nl re_dot s = Some s1" and p2: "plus_nl re_dot s1 = Some s2" and
    p3: "plus_nl re_dot s2 = Some s3" and p4: "cat_nl s3 = Some s4" and
    p5: "plus_nl (re_digit nd) s4 = Some s5" and p6: "boundary_mark s5"
    by (auto simp: valid_pattern_match_def split: option.splits Option.bind_splits)
  from p1 obtain l0 where l0: "l0 \<noteq> []" "split_nl s = l0 # split_nl s1"
    using plus_dot_lines by blast
  from p2 obtain l1 where l1: "l1 \<noteq> []" "split_nl s1 = l1 # split_nl s2"
    using plus_dot_lines by blast
  from p3 obtain l2 where l2: "l2 \<noteq> []" "split_nl s2 = l2 # split_nl s3"
    using plus_dot_lines by blast
  from p4 obtain c where c: "c = 65 \<or> c = 66 \<or> c = 67" "s3 = c # 10 # s4"
    using cat_nl_lines by blast
  then have l3: "split_nl s3 = [c] # split_nl s4"
    using split_nl_line[of "[c]" s4] by auto
  from p5 obtain l4 where l4: "l4 \<noteq> []" "list_all (re_digit nd) l4" "split_nl s4 = l4 # split_nl s5"
    using plus_digit_lines by blast
  obtain l5 ls where l5: "split_nl s5 = l5 # ls"
    using split_nl_ne by (cases "split_nl s5") auto
  have m: "boundary_mark l5" using boundary_mark_first[of s5] p6 l5 by simp
  have "split_nl s = l0 # l1 # l2 # [c] # l4 # l5 # ls"
    using l0 l1 l2 l3 l4 l5 by simp
  then show "six_line_shape nd (split_nl s)"
    using l0(1) l1(1) l2(1) c(1) l4(1,2) m by (auto simp: six_line_shape_def)
next
  assume h: "six_line_shape nd (split_nl s)"
  then have "6 \<le> length (split_nl s)" by (simp add: six_line_shape_def)
  then obtain l0 l1 l2 l3 l4 l5 ls where sp: "split_nl s = l0 # l1 # l2 # l3 # l4 # l5 # ls"
    by (auto simp: Suc_le_length_iff numeral_eq_Suc)
  with h have f: "l0 \<noteq> []" "l1 \<noteq> []" "l2 \<noteq> []" "l3 = [65] \<or> l3 = [66] \<or> l3 = [67]"
      "l4 \<noteq> []" "list_all (re_digit nd) l4" "boundary_mark l5"
    by (auto simp: six_line_shape_def)
  from split_nl_two[OF sp] obtain s1 where s1: "s = l0 @ 10 # s1" "split_nl s1 = l1 # l2 # l3 # l4 # l5 # ls"
    by blast
  from split_nl_two[OF s1(2)] obtain s2 where s2: "s1 = l1 @ 10 # s2" "split_nl s2 = l2 # l3 # l4 # l5 # ls"
    by blast
  from split_nl_two[OF s2(2)] obtain s3 where s3: "s2 = l2 @ 10 # s3" "split_nl s3 = l3 # l4 # l5 # ls"
    by blast
  from split_nl_two[OF s3(2)] obtain s4 where s4: "s3 = l3 @ 10 # s4" "split_nl s4 = l4 # l5 # ls"
    by blast
  from split_nl_two[OF s4(2)] obtain s5 where s5: "s4 = l4 @ 10 # s5" "split_nl s5 = l5 # ls"
    by blast
  have p1: "plus_nl re_dot s = Some s1" using plus_dot_lines[of s s1] sp s1 f(1) by simp
  have p2: "plus_nl re_dot s1 = Some s2" using plus_dot_lines[of s1 s2] s1 s2 f(2) by simp
  have p3: "plus_nl re_dot s2 = Some s3" using plus_dot_lines[of s2 s3] s2 s3 f(3) by simp
  have p4: "cat_nl s3 = Some s4" using cat_nl_lines[of s3 s4] s4(1) f(4) by auto
  have p5: "plus_nl (re_digit nd) s4 = Some s5"
    using plus_digit_lines[of nd s4 s5] s4 s5 f(5,6) by simp
  have p6: "boundary_mark s5" using boundary_mark_first[of s5] s5(2) f(7) by simp
  show "valid_pattern_match nd s"
    using p1 p2 p3 p4 p5 p6 by (simp add: valid_pattern_match_def)
qed

section \<open>The two loops of the parser\<close>

lemma parse_blocks_eq:
  "parse_blocks nd batch idx bs acc =
     acc @ map (\<lambda>j. parse_block nd batch (idx + j) (bs ! j)) [0..<length bs]"
proof (induction bs arbitrary: idx acc)
  case Nil
  then show ?case by simp
next
  case (Cons b bs)
  show ?case
    by (simp add: Cons.IH map_upt_Suc del: upt_Suc)
qed

lemma parse_block_word [simp]:
  "map_of (parse_block nd batch idx raw) ''word'' = Some (block_word batch idx)"
  by (simp add: parse_block_def try_block_def Let_def split: sum.splits)

lemma processed_words_map:
  "\<forall>x\<in>set xs. map_of (g x) ''word'' = Some (h x) \<Longrightarrow>
     processed_words (map g xs) = Inr (map h xs)"
  by (induction xs) auto

lemma add_missing_eq:
  "add_missing r pw ws acc = acc @ map (missing_entry r) (filter (\<lambda>w. w \<notin> set pw) ws)"
  by (induction ws arbitrary: acc) auto

lemma split_blank_ne: "split_blank s \<noteq> []"
  by (induction s rule: split_blank.induct) (auto split: list.splits)

lemma parse_response_eq:
  "parse_response nd r batch =
     Inr (block_entries nd r batch @
          map (missing_entry r) (filter (\<lambda>w. w \<notin> set (block_words r batch)) batch))"
proof -
  let ?bs = "split_blank (strip r)"
  have a: "parse_blocks nd batch 0 ?bs [] = block_entries nd r batch"
    by (simp add: parse_blocks_eq block_entries_def)
  have b: "processed_words (block_entries nd r batch) = Inr (block_words r batch)"
    unfolding block_entries_def block_words_def
    by (rule processed_words_map) simp
  show ?thesis
    by (simp add: parse_response_def Let_def a b add_missing_eq)
qed

lemma parse_block_cases:
  "(\<not> is_error (parse_block nd batch idx raw) \<and> valid_pattern_match nd (strip raw) \<and>
      parse_block nd batch idx raw =
        [(''word'', block_word batch idx),
         (''reason'', split_nl (strip raw) ! 1),
         (''near_words'', split_nl (strip raw) ! 2),
         (''category'', split_nl (strip raw) ! 3),
         (''confidence'', split_nl (strip raw) ! 4),
         (''is_boundary'', split_nl (strip raw) ! 5),
         (''raw_response'', strip raw)]) \<or>
   (is_error (parse_block nd batch idx raw) \<and> \<not> valid_pattern_match nd (strip raw) \<and>
      parse_block nd batch idx raw =
        [(''word'', block_word batch idx),
         (''error'', MSG_PARSE_PREFIX @ MSG_FORMAT),
         (''raw_response'', strip raw)])"
proof (cases "valid_pattern_match nd (strip raw)")
  case True
  then have "6 \<le> length (split_nl (strip raw))"
    by (simp add: valid_pattern_shape six_line_shape_def)
  with True show ?thesis
    by (simp add: parse_block_def try_block_def Let_def is_error_def)
next
  case False
  then show ?thesis
    by (simp add: parse_block_def try_block_def Let_def is_error_def)
qed

lemmas parser_defs =
  parse_response_def strip_def py_isspace_def parse_block_def try_block_def
  valid_pattern_match_def plus_nl_def cat_nl_def boundary_mark_def re_dot_def re_digit_def
  block_word_def missing_entry_def UNKNOWN_def is_error_def Let_def

lemma show_nat_read: "foldl (\<lambda>a c. 10 * a + (c - 48)) 0 (show_nat n) = n"
proof (induction n rule: show_nat.induct)
  case (1 n)
  show ?case
  proof (cases "n < 10")
    case True
    then show ?thesis by (subst show_nat.simps) simp
  next
    case False
    with 1 show ?thesis by (subst show_nat.simps) simp
  qed
qed

lemma show_nat_inj: "show_nat m = show_nat n \<Longrightarrow> m = n"
  by (metis show_nat_read)

lemma UNKNOWN_inj: "UNKNOWN i = UNKNOWN j \<Longrightarrow> i = j"
  by (simp add: UNKNOWN_def show_nat_inj)

lemma length_block_entries [simp]:
  "length (block_entries nd r batch) = length (split_blank (strip r))"
  by (simp add: block_entries_def)

lemma nth_block_entries:
  "j < length (split_blank (strip r)) \<Longrightarrow>
     block_entries nd r batch ! j = parse_block nd batch j (split_blank (strip r) ! j)"
  by (simp add: block_entries_def)

lemma block_entries_words:
  "map (\<lambda>e. map_of e ''word'') (block_entries nd r batch) = map Some (block_words r batch)"
  by (simp add: block_entries_def block_words_def)

lemma missing_entry_word [simp]: "map_of (missing_entry r w) ''word'' = Some w"
  by (simp add: missing_entry_def)

lemma missing_entry_error [simp]: "is_error (missing_entry r w)"
  by (simp add: missing_entry_def is_error_def)

lemma block_words_batch:
  "w \<in> set (block_words r batch) \<Longrightarrow> w \<in> set batch \<or> (\<exists>i\<ge>length batch. w = UNKNOWN i)"
proof -
  assume "w \<in> set (block_words r batch)"
  then obtain j where j: "w = block_word batch j" by (auto simp: block_words_def)
  show ?thesis
  proof (cases "j < length batch")
    case True
    with j show ?thesis by (simp add: block_word_def)
  next
    case False
    with j have "length batch \<le> j \<and> w = UNKNOWN j" by (simp add: block_word_def)
    then show ?thesis by blast
  qed
qed

lemma processed_block_entries:
  "processed_words (parse_blocks nd batch 0 (split_blank (strip r)) []) = Inr (block_words r batch)"
proof -
  have "parse_blocks nd batch 0 (split_blank (strip r)) [] = block_entries nd r batch"
    by (simp add: parse_blocks_eq block_entries_def)
  moreover have "processed_words (block_entries nd r batch) = Inr (block_words r batch)"
    unfolding block_entries_def block_words_def
    by (rule processed_words_map) simp
  ultimately show ?thesis by simp
qed

lemma parse_blocks_entries:
  "parse_blocks nd batch 0 (split_blank (strip r)) [] = block_entries nd r batch"
  by (simp add: parse_blocks_eq block_entries_def)

lemma block_word_inj:
  assumes "distinct batch" and "\<forall>i. UNKNOWN i \<notin> set batch"
  shows "inj (block_word batch)"
proof (rule injI)
  fix i j assume e: "block_word batch i = block_word batch j"
  show "i = j"
  proof (cases "i < length batch")
    case True
    note i = this
    show ?thesis
    proof (cases "j < length batch")
      case True
      with i e assms(1) show ?thesis
        by (simp add: block_word_def nth_eq_iff_index_eq)
    next
      case False
      with i e have "batch ! i = UNKNOWN j" by (simp add: block_word_def)
      with i have "UNKNOWN j \<in> set batch" by (metis nth_mem)
      with assms(2) show ?thesis by blast
    qed
  next
    case False
    note i = this
    show ?thesis
    proof (cases "j < length batch")
      case True
      with i e have "batch ! j = UNKNOWN i" by (simp add: block_word_def)
      with True have "UNKNOWN i \<in> set batch" by (metis nth_mem)
      with assms(2) show ?thesis by blast
    next
      case False
      with i e show ?thesis by (simp add: block_word_def UNKNOWN_inj)
    qed
  qed
qed

lemma valid_pattern_lines:
  assumes "lines = split_nl b"
  shows "valid_pattern_match nd b \<longleftrightarrow>
          (6 \<le> length lines \<and> lines ! 0 \<noteq> [] \<and> lines ! 1 \<noteq> [] \<and> lines ! 2 \<noteq> [] \<and>
           (lines ! 3 = [65] \<or> lines ! 3 = [66] \<or> lines ! 3 = [67]) \<and>
           lines ! 4 \<noteq> [] \<and> (\<forall>c\<in>set (lines ! 4). re_digit nd c) \<and>
           (\<exists>c t. lines ! 5 = c # t \<and> (c = 26159 \<or> c = 21542)))"
  unfolding valid_pattern_shape six_line_shape_def assms
  by (auto simp: list_all_iff boundary_mark_def split: list.splits)

section \<open>Claims about the response parser\<close>

text \<open>
  Claim C10. The parser is total: for every reply text and every word list it returns a
  list of records and raises nothing, and every record it returns has the key
  \<^verbatim>\<open>word\<close> and either the five result keys (reason, near_words, category,
  confidence, is_boundary) or the key \<^verbatim>\<open>error\<close>.
\<close>

theorem parse_response_total:
  "\<exists>es. parse_response nd r batch = Inr es \<and>
     (\<forall>e\<in>set es. map_of e ''word'' \<noteq> None \<and>
        ((map_of e ''reason'' \<noteq> None \<and> map_of e ''near_words'' \<noteq> None \<and>
          map_of e ''category'' \<noteq> None \<and> map_of e ''confidence'' \<noteq> None \<and>
          map_of e ''is_boundary'' \<noteq> None) \<or>
         map_of e ''error'' \<noteq> None))"
proof -
  have "map_of e ''word'' \<noteq> None \<and>
        ((map_of e ''reason'' \<noteq> None \<and> map_of e ''near_words'' \<noteq> None \<and>
          map_of e ''category'' \<noteq> None \<and> map_of e ''confidence'' \<noteq> None \<and>
          map_of e ''is_boundary'' \<noteq> None) \<or>
         map_of e ''error'' \<noteq> None)"
    if "e \<in> set (block_entries nd r batch) \<or> (\<exists>w. e = missing_entry r w)" for e
  proof -
    from that consider j raw where "e = parse_block nd batch j raw" | w where "e = missing_entry r w"
      by (auto simp: block_entries_def)
    then show ?thesis
    proof cases
      case 1
      then show ?thesis using parse_block_cases[of nd batch j raw] by auto
    next
      case 2
      then show ?thesis by (simp add: missing_entry_def)
    qed
  qed
  then show ?thesis
    by (auto simp add: parse_response_eq)
qed

theorem parse_response_total_witness:
  "parse_response (\<lambda>c. False) [] [] = Inr [[(''word'', UNKNOWN 0),
       (''error'', MSG_PARSE_PREFIX @ MSG_FORMAT), (''raw_response'', [])]] \<and>
   parse_response (\<lambda>c. False) [120, 10, 121] [[97], [98]] =
     Inr [[(''word'', [97]), (''error'', MSG_PARSE_PREFIX @ MSG_FORMAT), (''raw_response'', [120, 10, 121])],
          [(''word'', [98]), (''error'', MSG_MISSING), (''raw_response'', [120, 10, 121, 46, 46, 46])]]"
proof -
  obtain es where "parse_response (\<lambda>c. False) [120, 10, 121] [[97], [98]] = Inr es"
    using parse_response_total[of "\<lambda>c. False" "[120, 10, 121]" "[[97], [98]]"] by blast
  then show ?thesis
    by (simp add: parse_response_def strip_def py_isspace_def parse_block_def try_block_def
        valid_pattern_match_def plus_nl_def re_dot_def block_word_def missing_entry_def Let_def)
qed

text \<open>
  Claim C1, as amended. For every batch and every reply text the parser returns records
  such that every word of the batch is carried by some record; every record carries a
  word of the batch or a placeholder \<^verbatim>\<open>UNKNOWN_i\<close> of a block position \<open>i\<close> at or
  beyond the batch length; and there are at least as many records as the batch has
  distinct words, hence at least as many as the batch has words when none repeats.
  As stated the claim fails twice: a batch that repeats a word can get fewer records
  than words, and a reply with more blocks than words introduces placeholder words.
\<close>

theorem parse_response_words:
  "\<exists>es. parse_response nd r batch = Inr es \<and>
     (\<forall>w\<in>set batch. \<exists>e\<in>set es. map_of e ''word'' = Some w) \<and>
     (\<forall>e\<in>set es. \<exists>w. map_of e ''word'' = Some w \<and>
        (w \<in> set batch \<or> (\<exists>i\<ge>length batch. w = UNKNOWN i))) \<and>
     card (set batch) \<le> length es \<and>
     (distinct batch \<longrightarrow> length batch \<le> length es)"
proof -
  let ?B = "block_entries nd r batch"
  let ?M = "map (missing_entry r) (filter (\<lambda>w. w \<notin> set (block_words r batch)) batch)"
  let ?es = "?B @ ?M"
  have eq: "parse_response nd r batch = Inr ?es" by (rule parse_response_eq)
  have ws: "map (\<lambda>e. map_of e ''word'') ?es =
              map Some (block_words r batch @ filter (\<lambda>w. w \<notin> set (block_words r batch)) batch)"
    by (simp add: block_entries_words comp_def)
  have cover: "\<exists>e\<in>set ?es. map_of e ''word'' = Some w" if "w \<in> set batch" for w
  proof -
    have "Some w \<in> set (map (\<lambda>e. map_of e ''word'') ?es)"
      unfolding ws using that by auto
    then have "Some w \<in> (\<lambda>e. map_of e ''word'') ` set ?es"
      by (simp only: set_map)
    then show ?thesis by (metis (no_types, lifting) imageE)
  qed
  have only: "\<exists>w. map_of e ''word'' = Some w \<and> (w \<in> set batch \<or> (\<exists>i\<ge>length batch. w = UNKNOWN i))"
    if "e \<in> set ?es" for e
  proof -
    from that have "map_of e ''word'' \<in> set (map (\<lambda>e. map_of e ''word'') ?es)"
      by (metis (no_types, lifting) image_eqI set_map)
    then obtain w where w: "map_of e ''word'' = Some w"
      "w \<in> set (block_words r batch) \<or> w \<in> set batch"
      unfolding ws by auto
    then show ?thesis using block_words_batch by blast
  qed
  have "set batch \<subseteq> (\<lambda>e. the (map_of e ''word'')) ` set ?es"
  proof
    fix w assume "w \<in> set batch"
    then obtain e where "e \<in> set ?es" "map_of e ''word'' = Some w" using cover by blast
    then show "w \<in> (\<lambda>e. the (map_of e ''word'')) ` set ?es" by force
  qed
  then have "card (set batch) \<le> card ((\<lambda>e. the (map_of e ''word'')) ` set ?es)"
    by (simp add: card_mono)
  also have "\<dots> \<le> card (set ?es)" by (rule card_image_le) simp
  also have "\<dots> \<le> length ?es" by (rule card_length)
  finally have c: "card (set batch) \<le> length ?es" .
  have d: "distinct batch \<longrightarrow> length batch \<le> length ?es"
    using c distinct_card[of batch] by auto
  show ?thesis using eq cover only c d by blast
qed

theorem parse_response_words_witness:
  "parse_response (\<lambda>c. False) [120, 10, 10, 121] [[97], [98], [99]] =
     Inr [[(''word'', [97]), (''error'', MSG_PARSE_PREFIX @ MSG_FORMAT), (''raw_response'', [120])],
          [(''word'', [98]), (''error'', MSG_PARSE_PREFIX @ MSG_FORMAT), (''raw_response'', [121])],
          [(''word'', [99]), (''error'', MSG_MISSING), (''raw_response'', [120, 10, 10, 121, 46, 46, 46])]] \<and>
   distinct [[97], [98], [99::nat]]"
proof -
  obtain es where "parse_response (\<lambda>c. False) [120, 10, 10, 121] [[97], [98], [99]] = Inr es"
    using parse_response_words[of "\<lambda>c. False" "[120, 10, 10, 121]" "[[97], [98], [99]]"] by blast
  then show ?thesis by (simp add: parser_defs)
qed

theorem parse_response_words_counterexample:
  "parse_response (\<lambda>c. False) [] [[97], [97]] =
     Inr [[(''word'', [97]), (''error'', MSG_PARSE_PREFIX @ MSG_FORMAT), (''raw_response'', [])]] \<and>
   parse_response (\<lambda>c. False) [120, 10, 10, 121] [[97]] =
     Inr [[(''word'', [97]), (''error'', MSG_PARSE_PREFIX @ MSG_FORMAT), (''raw_response'', [120])],
          [(''word'', [85, 78, 75, 78, 79, 87, 78, 95, 49]),
           (''error'', MSG_PARSE_PREFIX @ MSG_FORMAT), (''raw_response'', [121])]]"
  by (simp add: parser_defs show_nat.simps)

text \<open>
  Claim C4. After the loop over the blocks the parser appends, for every word of the
  batch that none of the records built from the blocks carries, an error record for that
  word with the missing-from-response message and, as context, the first 200 characters
  of the full reply (followed by three dots). In particular, for a batch of three
  distinct words and a reply that splits into exactly two blocks, both matching the
  pattern, the parser returns exactly three records, the third being this error record
  for the third word.
\<close>

theorem missing_words_reported:
  "(\<exists>pw. processed_words (parse_blocks nd batch 0 (split_blank (strip r)) []) = Inr pw \<and>
      parse_response nd r batch =
        Inr (parse_blocks nd batch 0 (split_blank (strip r)) [] @
             map (\<lambda>w. [(''word'', w), (''error'', MSG_MISSING),
                        (''raw_response'', take 200 r @ [46, 46, 46])])
                 (filter (\<lambda>w. w \<notin> set pw) batch))) \<and>
   (\<forall>w0 w1 w2 b0 b1.
      batch = [w0, w1, w2] \<and> distinct batch \<and> split_blank (strip r) = [b0, b1] \<and>
      valid_pattern_match nd (strip b0) \<and> valid_pattern_match nd (strip b1) \<longrightarrow>
      (\<exists>e0 e1. parse_response nd r batch =
           Inr [e0, e1, [(''word'', w2), (''error'', MSG_MISSING),
                         (''raw_response'', take 200 r @ [46, 46, 46])]] \<and>
         map_of e0 ''word'' = Some w0 \<and> \<not> is_error e0 \<and>
         map_of e1 ''word'' = Some w1 \<and> \<not> is_error e1))"
proof (intro conjI allI impI)
  show "\<exists>pw. processed_words (parse_blocks nd batch 0 (split_blank (strip r)) []) = Inr pw \<and>
      parse_response nd r batch =
        Inr (parse_blocks nd batch 0 (split_blank (strip r)) [] @
             map (\<lambda>w. [(''word'', w), (''error'', MSG_MISSING),
                        (''raw_response'', take 200 r @ [46, 46, 46])])
                 (filter (\<lambda>w. w \<notin> set pw) batch))"
    using processed_block_entries[of nd batch r] parse_response_eq[of nd r batch]
    by (simp add: parse_blocks_entries missing_entry_def)
next
  fix w0 w1 w2 b0 b1
  assume h: "batch = [w0, w1, w2] \<and> distinct batch \<and> split_blank (strip r) = [b0, b1] \<and>
      valid_pattern_match nd (strip b0) \<and> valid_pattern_match nd (strip b1)"
  then have bw: "block_words r batch = [w0, w1]"
    by (simp add: block_words_def block_word_def upt_rec)
  have be: "block_entries nd r batch = [parse_block nd batch 0 b0, parse_block nd batch 1 b1]"
    using h by (simp add: block_entries_def upt_rec)
  have e0: "\<not> is_error (parse_block nd batch 0 b0)"
    using parse_block_cases[of nd batch 0 b0] h by auto
  have e1: "\<not> is_error (parse_block nd batch 1 b1)"
    using parse_block_cases[of nd batch 1 b1] h by auto
  have f: "filter (\<lambda>w. w \<notin> set (block_words r batch)) batch = [w2]"
    using h bw by auto
  have "parse_response nd r batch =
      Inr [parse_block nd batch 0 b0, parse_block nd batch 1 b1,
           [(''word'', w2), (''error'', MSG_MISSING), (''raw_response'', take 200 r @ [46, 46, 46])]]"
    by (simp add: parse_response_eq be f missing_entry_def)
  moreover have "map_of (parse_block nd batch 0 b0) ''word'' = Some w0"
    using h by (simp add: block_word_def)
  moreover have "map_of (parse_block nd batch 1 b1) ''word'' = Some w1"
    using h by (simp add: block_word_def)
  ultimately show "\<exists>e0 e1. parse_response nd r batch =
           Inr [e0, e1, [(''word'', w2), (''error'', MSG_MISSING),
                         (''raw_response'', take 200 r @ [46, 46, 46])]] \<and>
         map_of e0 ''word'' = Some w0 \<and> \<not> is_error e0 \<and>
         map_of e1 ''word'' = Some w1 \<and> \<not> is_error e1"
    using e0 e1 by blast
qed

theorem missing_words_reported_witness:
  "distinct [[97], [98], [99::nat]] \<and>
   split_blank (strip [119, 10, 114, 10, 110, 10, 66, 10, 55, 10, 21542, 10, 10,
                       120, 10, 115, 10, 109, 10, 67, 10, 49, 48, 10, 26159]) =
     [[119, 10, 114, 10, 110, 10, 66, 10, 55, 10, 21542],
      [120, 10, 115, 10, 109, 10, 67, 10, 49, 48, 10, 26159]] \<and>
   valid_pattern_match (\<lambda>c. False) (strip [119, 10, 114, 10, 110, 10, 66, 10, 55, 10, 21542]) \<and>
   valid_pattern_match (\<lambda>c. False) (strip [120, 10, 115, 10, 109, 10, 67, 10, 49, 48, 10, 26159]) \<and>
   (\<exists>e0 e1. parse_response (\<lambda>c. False)
        [119, 10, 114, 10, 110, 10, 66, 10, 55, 10, 21542, 10, 10,
         120, 10, 115, 10, 109, 10, 67, 10, 49, 48, 10, 26159] [[97], [98], [99]] =
      Inr [e0, e1, [(''word'', [99]), (''error'', MSG_MISSING),
            (''raw_response'', [119, 10, 114, 10, 110, 10, 66, 10, 55, 10, 21542, 10, 10,
               120, 10, 115, 10, 109, 10, 67, 10, 49, 48, 10, 26159, 46, 46, 46])]] \<and>
      map_of e0 ''word'' = Some [97] \<and> \<not> is_error e0 \<and>
      map_of e1 ''word'' = Some [98] \<and> \<not> is_error e1)"
proof -
  let ?r = "[119, 10, 114, 10, 110, 10, 66, 10, 55, 10, 21542, 10, 10,
             120, 10, 115, 10, 109, 10, 67, 10, 49, 48, 10, 26159] :: nat list"
  have a: "distinct [[97], [98], [99::nat]]" by simp
  have b: "split_blank (strip ?r) =
     [[119, 10, 114, 10, 110, 10, 66, 10, 55, 10, 21542],
      [120, 10, 115, 10, 109, 10, 67, 10, 49, 48, 10, 26159]]"
    by (simp add: strip_def py_isspace_def)
  have c: "valid_pattern_match (\<lambda>c. False) (strip [119, 10, 114, 10, 110, 10, 66, 10, 55, 10, 21542])"
    by (simp add: parser_defs)
  have d: "valid_pattern_match (\<lambda>c. False) (strip [120, 10, 115, 10, 109, 10, 67, 10, 49, 48, 10, 26159])"
    by (simp add: parser_defs)
  note t = missing_words_reported[of "\<lambda>c. False" "[[97], [98], [99]]" ?r,
      THEN conjunct2, rule_format,
      of "[97]" "[98]" "[99]" "[119, 10, 114, 10, 110, 10, 66, 10, 55, 10, 21542]"
         "[120, 10, 115, 10, 109, 10, 67, 10, 49, 48, 10, 26159]"]
  have e: "\<exists>e0 e1. parse_response (\<lambda>c. False) ?r [[97], [98], [99]] =
      Inr [e0, e1, [(''word'', [99]), (''error'', MSG_MISSING),
            (''raw_response'', take 200 ?r @ [46, 46, 46])]] \<and>
      map_of e0 ''word'' = Some [97] \<and> \<not> is_error e0 \<and>
      map_of e1 ''word'' = Some [98] \<and> \<not> is_error e1"
    by (rule t) (intro conjI refl a b c d)
  have "take 200 ?r @ [46, 46, 46] =
     [119, 10, 114, 10, 110, 10, 66, 10, 55, 10, 21542, 10, 10,
      120, 10, 115, 10, 109, 10, 67, 10, 49, 48, 10, 26159, 46, 46, 46]" by simp
  with e have e': "\<exists>e0 e1. parse_response (\<lambda>c. False) ?r [[97], [98], [99]] =
      Inr [e0, e1, [(''word'', [99]), (''error'', MSG_MISSING),
            (''raw_response'', [119, 10, 114, 10, 110, 10, 66, 10, 55, 10, 21542, 10, 10,
               120, 10, 115, 10, 109, 10, 67, 10, 49, 48, 10, 26159, 46, 46, 46])]] \<and>
      map_of e0 ''word'' = Some [97] \<and> \<not> is_error e0 \<and>
      map_of e1 ''word'' = Some [98] \<and> \<not> is_error e1"
    by (simp only:)
  show ?thesis by (intro conjI a b c d e')
qed

text \<open>
  Claim C6, as amended. When the batch has no repeated word and none of its words is a
  placeholder \<^verbatim>\<open>UNKNOWN_i\<close>, no word is carried both by a record without the key
  \<^verbatim>\<open>error\<close> and by a record with it. Without these two conditions the claim
  fails: with a repeated word, one block can succeed and another fail for the same word;
  and a batch word that reads like a placeholder can collide with the placeholder of a
  surplus block.
\<close>

theorem success_error_exclusive:
  assumes "distinct batch" and "\<forall>i. UNKNOWN i \<notin> set batch"
  shows "\<exists>es. parse_response nd r batch = Inr es \<and>
     (\<forall>e\<in>set es. \<forall>e'\<in>set es.
        \<not> is_error e \<and> is_error e' \<longrightarrow> map_of e ''word'' \<noteq> map_of e' ''word'')"
proof -
  let ?B = "block_entries nd r batch"
  let ?M = "map (missing_entry r) (filter (\<lambda>w. w \<notin> set (block_words r batch)) batch)"
  have eq: "parse_response nd r batch = Inr (?B @ ?M)" by (rule parse_response_eq)
  have inj: "inj (block_word batch)" using assms by (rule block_word_inj)
  have "map_of e ''word'' \<noteq> map_of e' ''word''"
    if e: "e \<in> set (?B @ ?M)" "\<not> is_error e" and e': "e' \<in> set (?B @ ?M)" "is_error e'" for e e'
  proof -
    from e have "e \<in> set ?B" by auto
    then obtain j where j: "j < length (split_blank (strip r))"
      "e = parse_block nd batch j (split_blank (strip r) ! j)"
      by (auto simp: block_entries_def)
    then have we: "map_of e ''word'' = Some (block_word batch j)" by simp
    from e'(1) consider "e' \<in> set ?B" | "e' \<in> set ?M" by auto
    then show ?thesis
    proof cases
      case 1
      then obtain k where k: "k < length (split_blank (strip r))"
        "e' = parse_block nd batch k (split_blank (strip r) ! k)"
        by (auto simp: block_entries_def)
      have "j \<noteq> k" using j k e(2) e'(2) by auto
      then have "block_word batch j \<noteq> block_word batch k" using inj by (auto dest: injD)
      with we k show ?thesis by simp
    next
      case 2
      then obtain w where w: "e' = missing_entry r w" "w \<notin> set (block_words r batch)" by auto
      have "block_word batch j \<in> set (block_words r batch)"
        using j(1) by (auto simp: block_words_def)
      with w we show ?thesis by auto
    qed
  qed
  with eq show ?thesis by blast
qed

theorem success_error_exclusive_witness:
  "distinct [[97], [98::nat]] \<and> (\<forall>i. UNKNOWN i \<notin> set [[97], [98]]) \<and>
   parse_response (\<lambda>c. False) [119, 10, 114, 10, 110, 10, 66, 10, 55, 10, 21542, 10, 10, 120]
       [[97], [98]] =
     Inr [[(''word'', [97]), (''reason'', [114]), (''near_words'', [110]), (''category'', [66]),
           (''confidence'', [55]), (''is_boundary'', [21542]),
           (''raw_response'', [119, 10, 114, 10, 110, 10, 66, 10, 55, 10, 21542])],
          [(''word'', [98]), (''error'', MSG_PARSE_PREFIX @ MSG_FORMAT), (''raw_response'', [120])]]"
proof -
  have a: "distinct [[97], [98::nat]]" by simp
  have b: "\<forall>i. UNKNOWN i \<notin> set [[97], [98]]" by (simp add: UNKNOWN_def)
  obtain es where es: "parse_response (\<lambda>c. False)
      [119, 10, 114, 10, 110, 10, 66, 10, 55, 10, 21542, 10, 10, 120] [[97], [98]] = Inr es"
    using success_error_exclusive[OF a b] by blast
  have "parse_response (\<lambda>c. False)
      [119, 10, 114, 10, 110, 10, 66, 10, 55, 10, 21542, 10, 10, 120] [[97], [98]] =
     Inr [[(''word'', [97]), (''reason'', [114]), (''near_words'', [110]), (''category'', [66]),
           (''confidence'', [55]), (''is_boundary'', [21542]),
           (''raw_response'', [119, 10, 114, 10, 110, 10, 66, 10, 55, 10, 21542])],
          [(''word'', [98]), (''error'', MSG_PARSE_PREFIX @ MSG_FORMAT), (''raw_response'', [120])]]"
    by (simp add: parser_defs)
  with es a b show ?thesis by blast
qed

theorem success_error_exclusive_counterexample:
  "parse_response (\<lambda>c. False) [119, 10, 114, 10, 110, 10, 66, 10, 55, 10, 21542, 10, 10, 120]
       [[97], [97]] =
     Inr [[(''word'', [97]), (''reason'', [114]), (''near_words'', [110]), (''category'', [66]),
           (''confidence'', [55]), (''is_boundary'', [21542]),
           (''raw_response'', [119, 10, 114, 10, 110, 10, 66, 10, 55, 10, 21542])],
          [(''word'', [97]), (''error'', MSG_PARSE_PREFIX @ MSG_FORMAT), (''raw_response'', [120])]] \<and>
   parse_response (\<lambda>c. False) [120, 10, 10, 119, 10, 114, 10, 110, 10, 66, 10, 55, 10, 21542]
       [[85, 78, 75, 78, 79, 87, 78, 95, 49]] =
     Inr [[(''word'', [85, 78, 75, 78, 79, 87, 78, 95, 49]),
           (''error'', MSG_PARSE_PREFIX @ MSG_FORMAT), (''raw_response'', [120])],
          [(''word'', [85, 78, 75, 78, 79, 87, 78, 95, 49]), (''reason'', [114]),
           (''near_words'', [110]), (''category'', [66]),
           (''confidence'', [55]), (''is_boundary'', [21542]),
           (''raw_response'', [119, 10, 114, 10, 110, 10, 66, 10, 55, 10, 21542])]]"
  by (simp add: parser_defs show_nat.simps)

text \<open>
  Claim C5, as amended. Take a reply block whose lines, after stripping, do not have
  the shape the pattern accepts: fewer than six lines, or one of the first three empty,
  or a fourth line that is not exactly A, B or C, or a fifth line that is not a
  non-empty run of decimal digits, or a sixth line that does not begin with a boundary
  mark. It yields, at its position, an error record with the format-error message and
  the stripped block; nothing is raised. In any other reply with the same number of
  blocks, every position whose block is the same gets the same record and every record
  carries the same word; the records appended for missing words are the same but for
  their snippet, which is the first 200 characters of the reply they come from. As
  stated the claim fails twice: a block that is malformed by the shape the
  specification gives (a confidence of 0) is accepted as a success; and the record of a
  sibling word without a block quotes the reply, hence the malformed block.
\<close>

theorem malformed_block_isolated:
  assumes "i < length (split_blank (strip r))"
    and "lines = split_nl (strip (split_blank (strip r) ! i))"
    and "\<not> (6 \<le> length lines \<and> lines ! 0 \<noteq> [] \<and> lines ! 1 \<noteq> [] \<and> lines ! 2 \<noteq> [] \<and>
           (lines ! 3 = [65] \<or> lines ! 3 = [66] \<or> lines ! 3 = [67]) \<and>
           lines ! 4 \<noteq> [] \<and> (\<forall>c\<in>set (lines ! 4). re_digit nd c) \<and>
           (\<exists>c t. lines ! 5 = c # t \<and> (c = 26159 \<or> c = 21542)))"
  shows "\<exists>es. parse_response nd r batch = Inr es \<and> i < length es \<and>
     es ! i = [(''word'', if i < length batch then batch ! i else UNKNOWN i),
               (''error'', MSG_PARSE_PREFIX @ MSG_FORMAT),
               (''raw_response'', strip (split_blank (strip r) ! i))] \<and>
     (\<forall>r'. length (split_blank (strip r')) = length (split_blank (strip r)) \<longrightarrow>
        (\<exists>es'. parse_response nd r' batch = Inr es' \<and> length es' = length es \<and>
           (\<forall>j<length (split_blank (strip r)).
              split_blank (strip r') ! j = split_blank (strip r) ! j \<longrightarrow> es' ! j = es ! j) \<and>
           (\<forall>j<length es. map_of (es' ! j) ''word'' = map_of (es ! j) ''word'') \<and>
           (\<forall>j<length es. length (split_blank (strip r)) \<le> j \<longrightarrow>
              (\<exists>w. es ! j = [(''word'', w), (''error'', MSG_MISSING),
                               (''raw_response'', take 200 r @ [46, 46, 46])] \<and>
                   es' ! j = [(''word'', w), (''error'', MSG_MISSING),
                               (''raw_response'', take 200 r' @ [46, 46, 46])]))))"
proof -
  let ?n = "length (split_blank (strip r))"
  let ?B = "block_entries nd r batch"
  let ?F = "filter (\<lambda>w. w \<notin> set (block_words r batch)) batch"
  let ?M = "map (missing_entry r) ?F"
  have eq: "parse_response nd r batch = Inr (?B @ ?M)" by (rule parse_response_eq)
  have len: "i < length (?B @ ?M)" using assms(1) by simp
  have bad: "\<not> valid_pattern_match nd (strip (split_blank (strip r) ! i))"
    using valid_pattern_lines[OF assms(2), of nd] assms(3) by blast
  have "(?B @ ?M) ! i = parse_block nd batch i (split_blank (strip r) ! i)"
    using assms(1) by (simp add: nth_append nth_block_entries)
  then have ith: "(?B @ ?M) ! i = [(''word'', if i < length batch then batch ! i else UNKNOWN i),
               (''error'', MSG_PARSE_PREFIX @ MSG_FORMAT),
               (''raw_response'', strip (split_blank (strip r) ! i))]"
    using parse_block_cases[of nd batch i "split_blank (strip r) ! i"] bad
    by (simp add: block_word_def)
  have sib: "\<exists>es'. parse_response nd r' batch = Inr es' \<and> length es' = length (?B @ ?M) \<and>
           (\<forall>j<?n. split_blank (strip r') ! j = split_blank (strip r) ! j \<longrightarrow>
                es' ! j = (?B @ ?M) ! j) \<and>
           (\<forall>j<length (?B @ ?M). map_of (es' ! j) ''word'' = map_of ((?B @ ?M) ! j) ''word'') \<and>
           (\<forall>j<length (?B @ ?M). ?n \<le> j \<longrightarrow>
              (\<exists>w. (?B @ ?M) ! j = [(''word'', w), (''error'', MSG_MISSING),
                               (''raw_response'', take 200 r @ [46, 46, 46])] \<and>
                   es' ! j = [(''word'', w), (''error'', MSG_MISSING),
                               (''raw_response'', take 200 r' @ [46, 46, 46])]))"
    if n: "length (split_blank (strip r')) = ?n" for r'
  proof -
    let ?B' = "block_entries nd r' batch"
    let ?M' = "map (missing_entry r') ?F"
    have bw: "block_words r' batch = block_words r batch"
      using n by (simp add: block_words_def)
    have eq': "parse_response nd r' batch = Inr (?B' @ ?M')"
      using parse_response_eq[of nd r' batch] by (simp only: bw)
    have l: "length (?B' @ ?M') = length (?B @ ?M)" using n by simp
    have a: "(?B' @ ?M') ! j = (?B @ ?M) ! j"
      if "j < ?n" "split_blank (strip r') ! j = split_blank (strip r) ! j" for j
      using that n by (simp add: nth_append nth_block_entries)
    have w: "map (\<lambda>e. map_of e ''word'') (?B' @ ?M') = map (\<lambda>e. map_of e ''word'') (?B @ ?M)"
      by (simp add: block_entries_words bw comp_def)
    have b: "map_of ((?B' @ ?M') ! j) ''word'' = map_of ((?B @ ?M) ! j) ''word''"
      if "j < length (?B @ ?M)" for j
    proof -
      have "map (\<lambda>e. map_of e ''word'') (?B' @ ?M') ! j = map (\<lambda>e. map_of e ''word'') (?B @ ?M) ! j"
        by (simp only: w)
      then show ?thesis using that l by (simp only: nth_map)
    qed
    have c: "\<exists>w. (?B @ ?M) ! j = [(''word'', w), (''error'', MSG_MISSING),
                               (''raw_response'', take 200 r @ [46, 46, 46])] \<and>
                   (?B' @ ?M') ! j = [(''word'', w), (''error'', MSG_MISSING),
                               (''raw_response'', take 200 r' @ [46, 46, 46])]"
      if "j < length (?B @ ?M)" "?n \<le> j" for j
    proof -
      have x: "(?B' @ ?M') ! j = ?M' ! (j - ?n)" using that n by (simp add: nth_append)
      have y: "(?B @ ?M) ! j = ?M ! (j - ?n)" using that by (simp add: nth_append)
      have z: "j - ?n < length ?F" using that by auto
      have "?M ! (j - ?n) = missing_entry r (?F ! (j - ?n))" using z by simp
      moreover have "?M' ! (j - ?n) = missing_entry r' (?F ! (j - ?n))" using z by simp
      ultimately show ?thesis using x y by (simp add: missing_entry_def)
    qed
    show ?thesis using eq' l a b c by blast
  qed
  show ?thesis using eq len ith sib by blast
qed

theorem malformed_block_isolated_witness:
  "1 < length (split_blank (strip [119, 10, 114, 10, 110, 10, 66, 10, 55, 10, 21542, 10, 10, 97, 10, 98, 10, 99, 10, 100])) \<and>
   split_nl (strip (split_blank (strip [119, 10, 114, 10, 110, 10, 66, 10, 55, 10, 21542, 10, 10, 97, 10, 98, 10, 99, 10, 100]) ! 1)) = [[97], [98], [99], [100]] \<and>
   (\<exists>es. parse_response (\<lambda>c. False) [119, 10, 114, 10, 110, 10, 66, 10, 55, 10, 21542, 10, 10, 97, 10, 98, 10, 99, 10, 100] ([[97], [98], [99]] :: nat list list) = Inr es \<and>
     es ! 1 = [(''word'', [98]), (''error'', MSG_PARSE_PREFIX @ MSG_FORMAT),
               (''raw_response'', [97, 10, 98, 10, 99, 10, 100])] \<and>
     (\<exists>es'. parse_response (\<lambda>c. False) [119, 10, 114, 10, 110, 10, 66, 10, 55, 10, 21542, 10, 10, 120] ([[97], [98], [99]] :: nat list list) = Inr es' \<and>
        es' ! 0 = es ! 0 \<and>
        es ! 2 = [(''word'', [99]), (''error'', MSG_MISSING),
                  (''raw_response'', [119, 10, 114, 10, 110, 10, 66, 10, 55, 10, 21542, 10, 10, 97, 10, 98, 10, 99, 10, 100] @ [46, 46, 46])] \<and>
        es' ! 2 = [(''word'', [99]), (''error'', MSG_MISSING),
                  (''raw_response'', [119, 10, 114, 10, 110, 10, 66, 10, 55, 10, 21542, 10, 10, 120] @ [46, 46, 46])]))"
proof -
  let ?r = "[119, 10, 114, 10, 110, 10, 66, 10, 55, 10, 21542, 10, 10, 97, 10, 98, 10, 99, 10, 100] :: nat list"
  let ?r' = "[119, 10, 114, 10, 110, 10, 66, 10, 55, 10, 21542, 10, 10, 120] :: nat list"
  let ?b = "([[97], [98], [99]] :: nat list list)"
  have sp: "split_blank (strip ?r) =
      [[119, 10, 114, 10, 110, 10, 66, 10, 55, 10, 21542], [97, 10, 98, 10, 99, 10, 100]]"
    by (simp add: strip_def py_isspace_def)
  have sp': "split_blank (strip ?r') = [[119, 10, 114, 10, 110, 10, 66, 10, 55, 10, 21542], [120]]"
    by (simp add: strip_def py_isspace_def)
  have h1: "1 < length (split_blank (strip ?r))" by (simp only: sp) simp
  have ln: "split_nl (strip (split_blank (strip ?r) ! 1)) = [[97], [98], [99], [100]]"
    by (simp only: sp) (simp add: strip_def py_isspace_def)
  have h3: "\<not> (6 \<le> length [[97], [98], [99], [100::nat]] \<and> P)" for P by simp
  have h4: "length (split_blank (strip ?r')) = length (split_blank (strip ?r))"
    by (simp only: sp sp') simp
  have h5: "split_blank (strip ?r') ! 0 = split_blank (strip ?r) ! 0"
    by (simp only: sp sp') simp
  from malformed_block_isolated[OF h1 ln[symmetric] h3, of "\<lambda>c. False" ?b]
  obtain es where es: "parse_response (\<lambda>c. False) ?r ?b = Inr es"
    "es ! 1 = [(''word'', if 1 < length ?b then ?b ! 1 else UNKNOWN 1),
               (''error'', MSG_PARSE_PREFIX @ MSG_FORMAT),
               (''raw_response'', strip (split_blank (strip ?r) ! 1))]"
    "\<forall>r'. length (split_blank (strip r')) = length (split_blank (strip ?r)) \<longrightarrow>
        (\<exists>es'. parse_response (\<lambda>c. False) r' ?b = Inr es' \<and> length es' = length es \<and>
           (\<forall>j<length (split_blank (strip ?r)).
              split_blank (strip r') ! j = split_blank (strip ?r) ! j \<longrightarrow> es' ! j = es ! j) \<and>
           (\<forall>j<length es. map_of (es' ! j) ''word'' = map_of (es ! j) ''word'') \<and>
           (\<forall>j<length es. length (split_blank (strip ?r)) \<le> j \<longrightarrow>
              (\<exists>w. es ! j = [(''word'', w), (''error'', MSG_MISSING),
                               (''raw_response'', take 200 ?r @ [46, 46, 46])] \<and>
                   es' ! j = [(''word'', w), (''error'', MSG_MISSING),
                               (''raw_response'', take 200 r' @ [46, 46, 46])])))"
    by blast
  from es(3) h4 obtain es' where es': "parse_response (\<lambda>c. False) ?r' ?b = Inr es'"
    "\<forall>j<length (split_blank (strip ?r)).
        split_blank (strip ?r') ! j = split_blank (strip ?r) ! j \<longrightarrow> es' ! j = es ! j"
    by blast
  have "0 < length (split_blank (strip ?r))" by (simp only: sp) simp
  with es'(2) h5 have z: "es' ! 0 = es ! 0" by blast
  have e1: "es ! 1 = [(''word'', [98]), (''error'', MSG_PARSE_PREFIX @ MSG_FORMAT),
               (''raw_response'', [97, 10, 98, 10, 99, 10, 100])]"
    using es(2) by (simp only: sp) (simp add: strip_def py_isspace_def)
  have v: "parse_response (\<lambda>c. False) ?r ?b =
      Inr [parse_block (\<lambda>c. False) ?b 0 [119, 10, 114, 10, 110, 10, 66, 10, 55, 10, 21542],
           parse_block (\<lambda>c. False) ?b 1 [97, 10, 98, 10, 99, 10, 100],
           [(''word'', [99]), (''error'', MSG_MISSING), (''raw_response'', ?r @ [46, 46, 46])]]"
    by (simp add: parse_response_eq block_entries_def block_words_def block_word_def sp
        missing_entry_def upt_rec)
  have v': "parse_response (\<lambda>c. False) ?r' ?b =
      Inr [parse_block (\<lambda>c. False) ?b 0 [119, 10, 114, 10, 110, 10, 66, 10, 55, 10, 21542],
           parse_block (\<lambda>c. False) ?b 1 [120],
           [(''word'', [99]), (''error'', MSG_MISSING), (''raw_response'', ?r' @ [46, 46, 46])]]"
    by (simp add: parse_response_eq block_entries_def block_words_def block_word_def sp'
        missing_entry_def upt_rec)
  have ev: "es = [parse_block (\<lambda>c. False) ?b 0 [119, 10, 114, 10, 110, 10, 66, 10, 55, 10, 21542],
           parse_block (\<lambda>c. False) ?b 1 [97, 10, 98, 10, 99, 10, 100],
           [(''word'', [99]), (''error'', MSG_MISSING), (''raw_response'', ?r @ [46, 46, 46])]]"
    using es(1) unfolding v by (rule sum.inject(2)[THEN iffD1, symmetric])
  have ev': "es' = [parse_block (\<lambda>c. False) ?b 0 [119, 10, 114, 10, 110, 10, 66, 10, 55, 10, 21542],
           parse_block (\<lambda>c. False) ?b 1 [120],
           [(''word'', [99]), (''error'', MSG_MISSING), (''raw_response'', ?r' @ [46, 46, 46])]]"
    using es'(1) unfolding v' by (rule sum.inject(2)[THEN iffD1, symmetric])
  have e2: "es ! 2 = [(''word'', [99]), (''error'', MSG_MISSING), (''raw_response'', ?r @ [46, 46, 46])]"
    unfolding ev by simp
  have e2': "es' ! 2 = [(''word'', [99]), (''error'', MSG_MISSING), (''raw_response'', ?r' @ [46, 46, 46])]"
    unfolding ev' by simp
  show ?thesis
    by (intro conjI exI[of _ es] exI[of _ es'] h1 ln es(1) e1 es'(1) z e2 e2')
qed

theorem malformed_block_isolated_counterexample:
  "parse_response (\<lambda>c. False) [119, 10, 114, 10, 110, 10, 65, 10, 48, 10, 26159] [[97]] =
     Inr [[(''word'', [97]), (''reason'', [114]), (''near_words'', [110]), (''category'', [65]),
           (''confidence'', [48]), (''is_boundary'', [26159]),
           (''raw_response'', [119, 10, 114, 10, 110, 10, 65, 10, 48, 10, 26159])]] \<and>
   parse_response (\<lambda>c. False) [120] [[97], [98]] =
     Inr [[(''word'', [97]), (''error'', MSG_PARSE_PREFIX @ MSG_FORMAT), (''raw_response'', [120])],
          [(''word'', [98]), (''error'', MSG_MISSING), (''raw_response'', [120, 46, 46, 46])]] \<and>
   parse_response (\<lambda>c. False) [121] [[97], [98]] =
     Inr [[(''word'', [97]), (''error'', MSG_PARSE_PREFIX @ MSG_FORMAT), (''raw_response'', [121])],
          [(''word'', [98]), (''error'', MSG_MISSING), (''raw_response'', [121, 46, 46, 46])]]"
  by (simp add: parser_defs)

text \<open>
  Claim C2, as amended. The block at position \<open>i\<close> gives a record without the key
  \<^verbatim>\<open>error\<close> exactly when the stripped block has at least six lines of which the
  first three are non-empty, the fourth is exactly one of A, B, C, the fifth is a
  non-empty run of decimal digits, and the sixth begins with one of the two boundary
  marks. The record then has the word of position \<open>i\<close> (the placeholder beyond the
  batch), lines 1 to 5 as reason, near_words, category, confidence and is_boundary, and
  the stripped block. As stated the claim fails: the digits need not denote a positive
  integer (a confidence of 0 is accepted), and the sixth line need not be exactly a
  boundary mark (the pattern is not anchored at the end).
\<close>

theorem block_classified_success:
  assumes "i < length (split_blank (strip r))"
    and "block = strip (split_blank (strip r) ! i)"
    and "lines = split_nl block"
  shows "\<exists>es. parse_response nd r batch = Inr es \<and> i < length es \<and>
     (\<not> is_error (es ! i) \<longleftrightarrow>
        6 \<le> length lines \<and> lines ! 0 \<noteq> [] \<and> lines ! 1 \<noteq> [] \<and> lines ! 2 \<noteq> [] \<and>
        (lines ! 3 = [65] \<or> lines ! 3 = [66] \<or> lines ! 3 = [67]) \<and>
        lines ! 4 \<noteq> [] \<and> (\<forall>c\<in>set (lines ! 4). re_digit nd c) \<and>
        (\<exists>c t. lines ! 5 = c # t \<and> (c = 26159 \<or> c = 21542))) \<and>
     (\<not> is_error (es ! i) \<longrightarrow>
        es ! i = [(''word'', if i < length batch then batch ! i else UNKNOWN i),
                  (''reason'', lines ! 1),
                  (''near_words'', lines ! 2),
                  (''category'', lines ! 3),
                  (''confidence'', lines ! 4),
                  (''is_boundary'', lines ! 5),
                  (''raw_response'', block)])"
proof -
  let ?B = "block_entries nd r batch"
  let ?M = "map (missing_entry r) (filter (\<lambda>w. w \<notin> set (block_words r batch)) batch)"
  have eq: "parse_response nd r batch = Inr (?B @ ?M)" by (rule parse_response_eq)
  have len: "i < length (?B @ ?M)" using assms(1) by simp
  have ith: "(?B @ ?M) ! i = parse_block nd batch i (split_blank (strip r) ! i)"
    using assms(1) by (simp add: nth_append nth_block_entries)
  have shape: "valid_pattern_match nd block \<longleftrightarrow>
        6 \<le> length lines \<and> lines ! 0 \<noteq> [] \<and> lines ! 1 \<noteq> [] \<and> lines ! 2 \<noteq> [] \<and>
        (lines ! 3 = [65] \<or> lines ! 3 = [66] \<or> lines ! 3 = [67]) \<and>
        lines ! 4 \<noteq> [] \<and> (\<forall>c\<in>set (lines ! 4). re_digit nd c) \<and>
        (\<exists>c t. lines ! 5 = c # t \<and> (c = 26159 \<or> c = 21542))"
    unfolding valid_pattern_shape six_line_shape_def assms(3)[symmetric]
    by (auto simp: list_all_iff boundary_mark_def split: list.splits)
  have a: "\<not> is_error ((?B @ ?M) ! i) \<longleftrightarrow> valid_pattern_match nd block"
    unfolding ith assms(2)
    using parse_block_cases[of nd batch i "split_blank (strip r) ! i"] by auto
  have b: "(?B @ ?M) ! i = [(''word'', if i < length batch then batch ! i else UNKNOWN i),
                  (''reason'', lines ! 1),
                  (''near_words'', lines ! 2),
                  (''category'', lines ! 3),
                  (''confidence'', lines ! 4),
                  (''is_boundary'', lines ! 5),
                  (''raw_response'', block)]" if "\<not> is_error ((?B @ ?M) ! i)"
    using that parse_block_cases[of nd batch i "split_blank (strip r) ! i"]
    unfolding ith assms(2,3) by (auto simp: block_word_def)
  show ?thesis using eq len a b shape by blast
qed

theorem block_classified_success_witness:
  "0 < length (split_blank (strip [25720, 40060, 10, 114, 10, 110, 10, 66, 10, 55, 10, 21542])) \<and>
   split_nl (strip (split_blank (strip
       [25720, 40060, 10, 114, 10, 110, 10, 66, 10, 55, 10, 21542]) ! 0)) =
     [[25720, 40060], [114], [110], [66], [55], [21542]] \<and>
   (\<exists>es. parse_response (\<lambda>c. False) [25720, 40060, 10, 114, 10, 110, 10, 66, 10, 55, 10, 21542]
        [[25720, 40060]] = Inr es \<and>
      \<not> is_error (es ! 0) \<and>
      es ! 0 = [(''word'', [25720, 40060]), (''reason'', [114]), (''near_words'', [110]),
                (''category'', [66]), (''confidence'', [55]), (''is_boundary'', [21542]),
                (''raw_response'', [25720, 40060, 10, 114, 10, 110, 10, 66, 10, 55, 10, 21542])])"
proof -
  let ?r = "[25720, 40060, 10, 114, 10, 110, 10, 66, 10, 55, 10, 21542] :: nat list"
  have sp: "split_blank (strip ?r) = [?r]" by (simp add: strip_def py_isspace_def)
  have st: "strip ?r = ?r" by (simp add: strip_def py_isspace_def)
  have h1: "0 < length (split_blank (strip ?r))" by (simp only: sp) simp
  have h3: "split_nl (strip (split_blank (strip ?r) ! 0)) =
      [[25720, 40060], [114], [110], [66], [55], [21542]]"
    by (simp add: strip_def py_isspace_def)
  from block_classified_success[OF h1 refl refl, of "\<lambda>c. False" "[[25720, 40060]]"]
  obtain es where es: "parse_response (\<lambda>c. False) ?r [[25720, 40060]] = Inr es"
    "\<not> is_error (es ! 0) \<longleftrightarrow>
        6 \<le> length (split_nl (strip (split_blank (strip ?r) ! 0))) \<and>
        split_nl (strip (split_blank (strip ?r) ! 0)) ! 0 \<noteq> [] \<and>
        split_nl (strip (split_blank (strip ?r) ! 0)) ! 1 \<noteq> [] \<and>
        split_nl (strip (split_blank (strip ?r) ! 0)) ! 2 \<noteq> [] \<and>
        (split_nl (strip (split_blank (strip ?r) ! 0)) ! 3 = [65] \<or>
         split_nl (strip (split_blank (strip ?r) ! 0)) ! 3 = [66] \<or>
         split_nl (strip (split_blank (strip ?r) ! 0)) ! 3 = [67]) \<and>
        split_nl (strip (split_blank (strip ?r) ! 0)) ! 4 \<noteq> [] \<and>
        (\<forall>c\<in>set (split_nl (strip (split_blank (strip ?r) ! 0)) ! 4). re_digit (\<lambda>c. False) c) \<and>
        (\<exists>c t. split_nl (strip (split_blank (strip ?r) ! 0)) ! 5 = c # t \<and> (c = 26159 \<or> c = 21542))"
    "\<not> is_error (es ! 0) \<longrightarrow>
        es ! 0 = [(''word'', if 0 < length [[25720, 40060::nat]] then [[25720, 40060]] ! 0 else UNKNOWN 0),
                  (''reason'', split_nl (strip (split_blank (strip ?r) ! 0)) ! 1),
                  (''near_words'', split_nl (strip (split_blank (strip ?r) ! 0)) ! 2),
                  (''category'', split_nl (strip (split_blank (strip ?r) ! 0)) ! 3),
                  (''confidence'', split_nl (strip (split_blank (strip ?r) ! 0)) ! 4),
                  (''is_boundary'', split_nl (strip (split_blank (strip ?r) ! 0)) ! 5),
                  (''raw_response'', strip (split_blank (strip ?r) ! 0))]"
    by blast
  have ok: "\<not> is_error (es ! 0)"
    using es(2) unfolding h3 by (simp add: re_digit_def)
  have "strip (split_blank (strip ?r) ! 0) = ?r" by (simp add: strip_def py_isspace_def)
  with es(3) ok have "es ! 0 = [(''word'', [25720, 40060]), (''reason'', [114]), (''near_words'', [110]),
                (''category'', [66]), (''confidence'', [55]), (''is_boundary'', [21542]),
                (''raw_response'', ?r)]"
    unfolding h3 by simp
  with es(1) ok h1 h3 show ?thesis by blast
qed

theorem block_classified_success_counterexample:
  "parse_response (\<lambda>c. False) [119, 10, 114, 10, 110, 10, 66, 10, 48, 10, 21542] [[97]] =
     Inr [[(''word'', [97]), (''reason'', [114]), (''near_words'', [110]), (''category'', [66]),
           (''confidence'', [48]), (''is_boundary'', [21542]),
           (''raw_response'', [119, 10, 114, 10, 110, 10, 66, 10, 48, 10, 21542])]] \<and>
   parse_response (\<lambda>c. False) [119, 10, 114, 10, 110, 10, 66, 10, 55, 10, 21542, 120] [[97]] =
     Inr [[(''word'', [97]), (''reason'', [114]), (''near_words'', [110]), (''category'', [66]),
           (''confidence'', [55]), (''is_boundary'', [21542, 120]),
           (''raw_response'', [119, 10, 114, 10, 110, 10, 66, 10, 55, 10, 21542, 120])]]"
  by (simp add: parser_defs)

section \<open>The loop of the batch runner\<close>

lemma range_count:
  assumes "0 < step" and "0 < (d::nat)"
  shows "(d + step - 1) div step = Suc ((d - step + step - 1) div step)"
proof -
  have b: "d + step - 1 = (d - 1) + step" using assms by simp
  have l: "(d + step - 1) div step = Suc ((d - 1) div step)"
    unfolding b using div_add_self2[of step "d - 1"] assms(1) by simp
  show ?thesis
  proof (cases "step \<le> d")
    case True
    then have "d - step + step - 1 = d - 1" by simp
    with l show ?thesis by simp
  next
    case False
    then have a: "d - step + step - 1 = step - 1" by simp
    have "(d - 1) div step = 0" using False assms by simp
    moreover have "(step - 1) div step = 0" using assms by simp
    ultimately show ?thesis using a l by simp
  qed
qed

lemma py_range_eq:
  "0 < step \<Longrightarrow>
     py_range i stop step = map (\<lambda>j. i + j * step) [0..<(stop - i + step - 1) div step]"
proof (induction i stop step rule: py_range.induct)
  case (1 i stop step)
  show ?case
  proof (cases "stop \<le> i")
    case True
    then have "(stop - i + step - 1) div step = 0" using "1.prems" by simp
    with True show ?thesis by (subst py_range.simps) simp
  next
    case False
    then have d: "0 < stop - i" by simp
    have c: "(stop - i + step - 1) div step = Suc ((stop - (i + step) + step - 1) div step)"
      using range_count[OF "1.prems" d] by (simp add: algebra_simps)
    have "py_range i stop step = i # py_range (i + step) stop step"
      using False "1.prems" by (subst py_range.simps) simp
    also have "\<dots> = i # map (\<lambda>j. i + step + j * step) [0..<(stop - (i + step) + step - 1) div step]"
      using "1.IH" False "1.prems" by simp
    also have "\<dots> = map (\<lambda>j. i + j * step) [0..<Suc ((stop - (i + step) + step - 1) div step)]"
      by (simp add: map_upt_Suc algebra_simps del: upt_Suc)
    finally show ?thesis by (simp only: c)
  qed
qed

lemma persisted_append: "persisted (xs @ ys) = persisted xs @ persisted ys"
  by (induction xs rule: persisted.induct) auto

lemma persisted_tagged: "\<forall>e\<in>set evs. event_batch e \<noteq> None \<Longrightarrow> persisted evs = []"
  by (induction evs rule: persisted.induct) auto

lemma process_batch_state:
  "snd (process_batch E batch bn s) =
     s\<lparr>trace := trace s @ [ApiCall bn (build_prompt E batch)], requests := Suc (requests s)\<rparr>"
  by (simp add: process_batch_def Let_def split: sum.splits)

lemma process_batch_result:
  "fst (process_batch E batch bn s) =
     (case client E (requests s) (build_prompt E batch) of
        Inl e \<Rightarrow> Inl (MSG_API_FAILED @ e) | Inr c \<Rightarrow> Inr c)"
  by (simp add: process_batch_def Let_def split: sum.splits)

lemma retrying_effects:
  "prog (snd (retrying E n batch bn s)) = prog s \<and>
   (\<exists>evs. trace (snd (retrying E n batch bn s)) =
            trace s @ ApiCall bn (build_prompt E batch) # evs \<and>
          (\<forall>e\<in>set evs. event_batch e = Some bn \<and> \<not> is_write e))"
proof (induction n arbitrary: s)
  case 0
  obtain res s' where p: "process_batch E batch bn s = (res, s')" by (cases "process_batch E batch bn s")
  then have s': "s' = s\<lparr>trace := trace s @ [ApiCall bn (build_prompt E batch)], requests := Suc (requests s)\<rparr>"
    using process_batch_state[of E batch bn s] by simp
  show ?case using p s' by (cases res) auto
next
  case (Suc n)
  obtain res s' where p: "process_batch E batch bn s = (res, s')" by (cases "process_batch E batch bn s")
  then have s': "s' = s\<lparr>trace := trace s @ [ApiCall bn (build_prompt E batch)], requests := Suc (requests s)\<rparr>"
    using process_batch_state[of E batch bn s] by simp
  show ?case
  proof (cases res)
    case (Inr r)
    with p s' show ?thesis by auto
  next
    case (Inl m)
    let ?s2 = "s'\<lparr>trace := trace s' @ [Backoff bn]\<rparr>"
    from Suc.IH[of ?s2] obtain evs where
      e: "prog (snd (retrying E n batch bn ?s2)) = prog ?s2"
         "trace (snd (retrying E n batch bn ?s2)) = trace ?s2 @ ApiCall bn (build_prompt E batch) # evs"
         "\<forall>e\<in>set evs. event_batch e = Some bn \<and> \<not> is_write e"
      by blast
    have r: "retrying E (Suc n) batch bn s = retrying E n batch bn ?s2"
      using p Inl by simp
    have "trace (snd (retrying E (Suc n) batch bn s)) =
        trace s @ ApiCall bn (build_prompt E batch) # (Backoff bn # ApiCall bn (build_prompt E batch) # evs)"
      using r e(2) s' by simp
    moreover have "\<forall>e\<in>set (Backoff bn # ApiCall bn (build_prompt E batch) # evs).
        event_batch e = Some bn \<and> \<not> is_write e"
      using e(3) by simp
    moreover have "prog (snd (retrying E (Suc n) batch bn s)) = prog s"
      using r e(1) s' by simp
    ultimately show ?thesis by blast
  qed
qed

lemma retrying_all_fail:
  "\<forall>k\<le>n. isl (client E (requests s + k) (build_prompt E batch)) \<Longrightarrow>
   retrying E n batch bn s =
     (Inl (retry_error_text (future_id E (requests s + n))),
      s\<lparr>trace := trace s @ failed_attempts n bn (build_prompt E batch),
        requests := requests s + Suc n\<rparr>)"
proof (induction n arbitrary: s)
  case 0
  then obtain m where "client E (requests s) (build_prompt E batch) = Inl m"
    by (cases "client E (requests s) (build_prompt E batch)") auto
  then show ?case by (simp add: process_batch_def Let_def)
next
  case (Suc n)
  from Suc.prems have "isl (client E (requests s + 0) (build_prompt E batch))" by blast
  then obtain m where m: "client E (requests s) (build_prompt E batch) = Inl m"
    by (cases "client E (requests s) (build_prompt E batch)") auto
  let ?s2 = "s\<lparr>trace := trace s @ [ApiCall bn (build_prompt E batch)], requests := Suc (requests s),
               trace := (trace s @ [ApiCall bn (build_prompt E batch)]) @ [Backoff bn]\<rparr>"
  have r: "retrying E (Suc n) batch bn s = retrying E n batch bn ?s2"
    using m by (simp add: process_batch_def Let_def)
  have "\<forall>k\<le>n. isl (client E (requests ?s2 + k) (build_prompt E batch))"
  proof (intro allI impI)
    fix k assume "k \<le> n"
    then have "Suc k \<le> Suc n" by simp
    with Suc.prems have "isl (client E (requests s + Suc k) (build_prompt E batch))" by blast
    then show "isl (client E (requests ?s2 + k) (build_prompt E batch))" by simp
  qed
  from Suc.IH[OF this] r show ?case by simp
qed

lemma batch_failed_effects:
  "prog (batch_failed E i batch bn msg s) =
     (prog s)\<lparr>last_index := i + BATCH_SIZE E, batches := batches (prog s) @ [bn]\<rparr> \<and>
   trace (batch_failed E i batch bn msg s) =
     trace s @ [WriteErrors bn (map (error_entry msg) batch)] @
       [WriteProgress (prog (batch_failed E i batch bn msg s))]"
  by (simp add: batch_failed_def Let_def)

lemma batch_succeeded_effects:
  "prog (batch_succeeded E i batch bn entries s) =
     (prog s)\<lparr>last_index := i + BATCH_SIZE E,
              processed := processed (prog s) + length batch,
              batches := batches (prog s) @ [bn]\<rparr> \<and>
   (\<exists>evs. trace (batch_succeeded E i batch bn entries s) =
            trace s @ evs @ [WriteProgress (prog (batch_succeeded E i batch bn entries s))] \<and>
          (\<forall>e\<in>set evs. event_batch e = Some bn))"
proof (cases "0 < length entries - length (filter (\<lambda>e. \<not> is_error e) entries)")
  case True
  then have "trace (batch_succeeded E i batch bn entries s) =
      trace s @ [WriteResults bn entries, WriteErrors bn (filter is_error entries)] @
        [WriteProgress (prog (batch_succeeded E i batch bn entries s))]"
    by (simp add: batch_succeeded_def Let_def)
  moreover have "\<forall>e\<in>set [WriteResults bn entries, WriteErrors bn (filter is_error entries)].
      event_batch e = Some bn" by simp
  moreover have "prog (batch_succeeded E i batch bn entries s) =
     (prog s)\<lparr>last_index := i + BATCH_SIZE E,
              processed := processed (prog s) + length batch,
              batches := batches (prog s) @ [bn]\<rparr>"
    by (simp add: batch_succeeded_def Let_def)
  ultimately show ?thesis by blast
next
  case False
  then have "trace (batch_succeeded E i batch bn entries s) =
      trace s @ [WriteResults bn entries] @
        [WriteProgress (prog (batch_succeeded E i batch bn entries s))]"
    by (simp add: batch_succeeded_def Let_def)
  moreover have "\<forall>e\<in>set [WriteResults bn entries]. event_batch e = Some bn" by simp
  moreover have "prog (batch_succeeded E i batch bn entries s) =
     (prog s)\<lparr>last_index := i + BATCH_SIZE E,
              processed := processed (prog s) + length batch,
              batches := batches (prog s) @ [bn]\<rparr>"
    by (simp add: batch_succeeded_def Let_def)
  ultimately show ?thesis by blast
qed

lemma batch_failed_outcome: "attempt_outcome E i bn s (batch_failed E i batch bn msg s)"
proof -
  have "\<forall>e\<in>set [WriteErrors bn (map (error_entry msg) batch)]. event_batch e = Some bn"
    by simp
  then show ?thesis
    unfolding attempt_outcome_def using batch_failed_effects[of E i batch bn msg s]
    by (intro conjI exI[of _ "[WriteErrors bn (map (error_entry msg) batch)]"]) simp_all
qed

lemma batch_succeeded_outcome:
  "attempt_outcome E i bn s (batch_succeeded E i batch bn entries s)"
proof -
  let ?X = "batch_succeeded E i batch bn entries s"
  from batch_succeeded_effects[of E i batch bn entries s] obtain evs where
    p: "prog ?X = (prog s)\<lparr>last_index := i + BATCH_SIZE E,
              processed := processed (prog s) + length batch,
              batches := batches (prog s) @ [bn]\<rparr>"
    and t: "trace ?X = trace s @ evs @ [WriteProgress (prog ?X)]"
    and e: "\<forall>e\<in>set evs. event_batch e = Some bn"
    by blast
  have "last_index (prog ?X) = i + BATCH_SIZE E" by (simp add: p)
  moreover have "batches (prog ?X) = batches (prog s) @ [bn]" by (simp add: p)
  ultimately show ?thesis unfolding attempt_outcome_def using t e by blast
qed

lemma batch_step_skip:
  "i div BATCH_SIZE E + 1 \<in> pb \<Longrightarrow> batch_step E words pb s i = s"
  by (simp add: batch_step_def Let_def)

lemma batch_step_attempt:
  assumes "i div BATCH_SIZE E + 1 \<notin> pb"
  shows "last_index (prog (batch_step E words pb s i)) = i + BATCH_SIZE E \<and>
     batches (prog (batch_step E words pb s i)) = batches (prog s) @ [i div BATCH_SIZE E + 1] \<and>
     (\<exists>evs. trace (batch_step E words pb s i) =
        trace s @
        ApiCall (i div BATCH_SIZE E + 1) (build_prompt E (take (BATCH_SIZE E) (drop i words))) #
        evs @ [WriteProgress (prog (batch_step E words pb s i)), Sleep] \<and>
        (\<forall>e\<in>set evs. event_batch e = Some (i div BATCH_SIZE E + 1)))"
proof -
  let ?bn = "i div BATCH_SIZE E + 1"
  let ?batch = "take (BATCH_SIZE E) (drop i words)"
  obtain res s1 where r: "process_batch_retry E ?batch ?bn s = (res, s1)"
    by (cases "process_batch_retry E ?batch ?bn s")
  then have "snd (retrying E (MAX_RETRIES E - 1) ?batch ?bn s) = s1"
    by (simp add: process_batch_retry_def)
  with retrying_effects[of E "MAX_RETRIES E - 1" ?batch ?bn s]
  obtain evs1 where s1: "prog s1 = prog s"
      "trace s1 = trace s @ ApiCall ?bn (build_prompt E ?batch) # evs1"
      "\<forall>e\<in>set evs1. event_batch e = Some ?bn"
    by auto
  let ?s' = "case res of
        Inl msg \<Rightarrow> batch_failed E i ?batch ?bn msg s1
      | Inr response_text \<Rightarrow>
          (case parse_response (unicode_nd E) response_text ?batch of
             Inl ex \<Rightarrow> batch_failed E i ?batch ?bn (str_exn ex) s1
           | Inr entries \<Rightarrow> batch_succeeded E i ?batch ?bn entries s1)"
  have step: "batch_step E words pb s i = ?s'\<lparr>trace := trace ?s' @ [Sleep]\<rparr>"
    using assms r by (auto simp: batch_step_def Let_def split: sum.splits)
  have "attempt_outcome E i ?bn s1 ?s'"
    by (auto split: sum.splits intro: batch_failed_outcome batch_succeeded_outcome)
  then obtain evs2 where o: "last_index (prog ?s') = i + BATCH_SIZE E"
      "batches (prog ?s') = batches (prog s1) @ [?bn]"
      "trace ?s' = trace s1 @ evs2 @ [WriteProgress (prog ?s')]"
      "\<forall>e\<in>set evs2. event_batch e = Some ?bn"
    unfolding attempt_outcome_def by blast
  have p: "prog (batch_step E words pb s i) = prog ?s'" by (simp add: step)
  have t: "trace (batch_step E words pb s i) =
      trace s @ ApiCall ?bn (build_prompt E ?batch) # (evs1 @ evs2) @
        [WriteProgress (prog (batch_step E words pb s i)), Sleep]"
    unfolding p by (simp add: step o(3) s1(2))
  have "\<forall>e\<in>set (evs1 @ evs2). event_batch e = Some ?bn" using s1(3) o(4) by auto
  with t p o(1,2) s1(1) show ?thesis by (metis (no_types, lifting))
qed

lemma batch_step_events:
  "\<exists>evs. trace (batch_step E words pb s i) = trace s @ evs \<and>
     (\<forall>e\<in>set evs. \<forall>n. event_batch e = Some n \<longrightarrow> n \<notin> pb)"
proof (cases "i div BATCH_SIZE E + 1 \<in> pb")
  case True
  then show ?thesis by (simp add: batch_step_skip)
next
  case False
  from batch_step_attempt[OF False, of words s] obtain evs where
    e: "trace (batch_step E words pb s i) =
        trace s @
        (ApiCall (i div BATCH_SIZE E + 1) (build_prompt E (take (BATCH_SIZE E) (drop i words))) #
        evs @ [WriteProgress (prog (batch_step E words pb s i)), Sleep])"
      "\<forall>e\<in>set evs. event_batch e = Some (i div BATCH_SIZE E + 1)"
    by auto
  have "\<forall>e\<in>set (ApiCall (i div BATCH_SIZE E + 1) (build_prompt E (take (BATCH_SIZE E) (drop i words))) #
        evs @ [WriteProgress (prog (batch_step E words pb s i)), Sleep]).
      \<forall>n. event_batch e = Some n \<longrightarrow> n \<notin> pb"
    using e(2) False by auto
  with e(1) show ?thesis by blast
qed

lemma loop_events:
  "\<exists>evs. trace (foldl (batch_step E words pb) s offs) = trace s @ evs \<and>
     (\<forall>e\<in>set evs. \<forall>n. event_batch e = Some n \<longrightarrow> n \<notin> pb)"
proof (induction offs arbitrary: s)
  case Nil
  then show ?case by simp
next
  case (Cons i offs)
  from batch_step_events[of E words pb s i] obtain evs1 where
    a: "trace (batch_step E words pb s i) = trace s @ evs1"
       "\<forall>e\<in>set evs1. \<forall>n. event_batch e = Some n \<longrightarrow> n \<notin> pb" by blast
  from Cons.IH[of "batch_step E words pb s i"] obtain evs2 where
    b: "trace (foldl (batch_step E words pb) (batch_step E words pb s i) offs) =
          trace (batch_step E words pb s i) @ evs2"
       "\<forall>e\<in>set evs2. \<forall>n. event_batch e = Some n \<longrightarrow> n \<notin> pb" by blast
  have "trace (foldl (batch_step E words pb) s (i # offs)) = trace s @ (evs1 @ evs2)"
    using a(1) b(1) by simp
  moreover have "\<forall>e\<in>set (evs1 @ evs2). \<forall>n. event_batch e = Some n \<longrightarrow> n \<notin> pb"
    using a(2) b(2) by auto
  ultimately show ?case by blast
qed

lemma main_events_fresh:
  assumes "main E words pf = Inr s"
  shows "\<forall>e\<in>set (trace s). \<forall>n. event_batch e = Some n \<longrightarrow> n \<notin> set (batches (load_progress pf))"
proof -
  let ?p = "load_progress pf"
  let ?init = "\<lparr>prog = ?p, trace = [], requests = 0\<rparr>"
  let ?l = "foldl (batch_step E words (set (batches ?p))) ?init
              (py_range (last_index ?p) (length words) (BATCH_SIZE E))"
  from loop_events[of E words "set (batches ?p)" ?init "py_range (last_index ?p) (length words) (BATCH_SIZE E)"]
  have l: "\<forall>e\<in>set (trace ?l). \<forall>n. event_batch e = Some n \<longrightarrow> n \<notin> set (batches ?p)"
    by auto
  from assms have "s = ?l \<or> s = ?l\<lparr>trace := trace ?l @ [Aggregate]\<rparr>"
    by (auto simp: main_def Let_def split: if_splits)
  then show ?thesis using l by auto
qed

lemmas runner_defs =
  main_def load_progress_def batch_step_def process_batch_retry_def process_batch_def
  batch_failed_def batch_succeeded_def build_prompt_def error_entry_def Let_def

lemma retrying_numeral:
  "retrying E (numeral k) batch bn s =
     (case process_batch E batch bn s of
        (Inr r, s') \<Rightarrow> (Inr r, s')
      | (Inl m, s') \<Rightarrow>
          retrying E (pred_numeral k) batch bn (s'\<lparr>trace := trace s' @ [Backoff bn]\<rparr>))"
  by (simp add: numeral_eq_Suc)

lemma persisted_attempt:
  assumes "\<forall>e\<in>set evs. event_batch e = Some bn"
  shows "persisted (tr @ ApiCall bn pr # evs @ [WriteProgress q, Sleep]) = persisted tr @ [q]"
proof -
  have "\<forall>e\<in>set (ApiCall bn pr # evs). event_batch e \<noteq> None" using assms by auto
  then have "persisted (ApiCall bn pr # evs) = []" by (rule persisted_tagged)
  then have "persisted ((ApiCall bn pr # evs) @ [WriteProgress q, Sleep]) = [q]"
    by (simp only: persisted_append) simp
  then show ?thesis using persisted_append[of tr "(ApiCall bn pr # evs) @ [WriteProgress q, Sleep]"]
    by simp
qed

lemma clean_run:
  assumes bs: "0 < BATCH_SIZE E"
    and pb: "\<forall>n\<in>pb. n \<le> k div BATCH_SIZE E"
    and k: "last_index (prog s) = k"
  shows "last_index (prog (foldl (batch_step E words pb) s
             (map (\<lambda>j. k + j * BATCH_SIZE E) [0..<m]))) = k + m * BATCH_SIZE E \<and>
         batches (prog (foldl (batch_step E words pb) s
             (map (\<lambda>j. k + j * BATCH_SIZE E) [0..<m]))) =
           batches (prog s) @ map (\<lambda>j. k div BATCH_SIZE E + Suc j) [0..<m] \<and>
         map last_index (persisted (trace (foldl (batch_step E words pb) s
             (map (\<lambda>j. k + j * BATCH_SIZE E) [0..<m])))) =
           map last_index (persisted (trace s)) @ map (\<lambda>j. k + Suc j * BATCH_SIZE E) [0..<m] \<and>
         map batches (persisted (trace (foldl (batch_step E words pb) s
             (map (\<lambda>j. k + j * BATCH_SIZE E) [0..<m])))) =
           map batches (persisted (trace s)) @
           map (\<lambda>j. batches (prog s) @ map (\<lambda>i. k div BATCH_SIZE E + Suc i) [0..<Suc j]) [0..<m]"
proof (induction m)
  case 0
  then show ?case using k by simp
next
  case (Suc m)
  let ?run = "foldl (batch_step E words pb) s (map (\<lambda>j. k + j * BATCH_SIZE E) [0..<m])"
  let ?i = "k + m * BATCH_SIZE E"
  let ?new = "batch_step E words pb ?run ?i"
  have run: "foldl (batch_step E words pb) s (map (\<lambda>j. k + j * BATCH_SIZE E) [0..<Suc m]) = ?new"
    by simp
  have bn: "?i div BATCH_SIZE E + 1 = k div BATCH_SIZE E + Suc m"
    using bs by simp
  have "k div BATCH_SIZE E + Suc m \<notin> pb" using pb by fastforce
  with bn have fresh: "?i div BATCH_SIZE E + 1 \<notin> pb" by metis
  from batch_step_attempt[OF fresh, of words ?run] obtain evs where
    a: "last_index (prog ?new) = ?i + BATCH_SIZE E"
       "batches (prog ?new) = batches (prog ?run) @ [?i div BATCH_SIZE E + 1]"
       "trace ?new = trace ?run @
          ApiCall (?i div BATCH_SIZE E + 1) (build_prompt E (take (BATCH_SIZE E) (drop ?i words))) #
          evs @ [WriteProgress (prog ?new), Sleep]"
       "\<forall>e\<in>set evs. event_batch e = Some (?i div BATCH_SIZE E + 1)"
    by blast
  have p: "persisted (trace ?new) = persisted (trace ?run) @ [prog ?new]"
    unfolding a(3) using a(4) by (rule persisted_attempt)
  have c1: "last_index (prog ?new) = k + Suc m * BATCH_SIZE E" using a(1) by simp
  have c2: "batches (prog ?new) = batches (prog s) @ map (\<lambda>j. k div BATCH_SIZE E + Suc j) [0..<Suc m]"
    using a(2) Suc.IH bn by simp
  have c3: "map last_index (persisted (trace ?new)) =
      map last_index (persisted (trace s)) @ map (\<lambda>j. k + Suc j * BATCH_SIZE E) [0..<Suc m]"
    using p Suc.IH c1 by simp
  have c4: "map batches (persisted (trace ?new)) = map batches (persisted (trace s)) @
      map (\<lambda>j. batches (prog s) @ map (\<lambda>i. k div BATCH_SIZE E + Suc i) [0..<Suc j]) [0..<Suc m]"
    using p Suc.IH c2 by simp
  show ?case unfolding run using c1 c2 c3 c4 by blast
qed







lemma show_hex_4098: "show_hex 4098 = [49, 48, 48, 50]"
  by (simp add: show_hex.simps hex_digit_def)

section \<open>Claims about the aggregator\<close>

lemma collect_csv_eq:
  "collect_csv dir acc =
     acc @ concat (map snd (filter (\<lambda>f. endswith (fst f) [46, 99, 115, 118]) dir))"
  by (induction dir arbitrary: acc) auto

lemma error_or_success:
  "\<not> counts_as_success e \<longleftrightarrow> (\<exists>v. map_of e ''error'' = Some (Val v))"
proof (cases "map_of e ''error''")
  case None
  then show ?thesis by (simp add: counts_as_success_def)
next
  case (Some c)
  then show ?thesis by (cases c) (simp_all add: counts_as_success_def)
qed

text \<open>
  Claim C9. The total of the aggregator is the sum of the row counts of the per-batch
  result tables in the results directory (the files whose name ends in \<^verbatim>\<open>.csv\<close>);
  successes and errors add up to the total; and a row counts as an error exactly when
  it has an \<^verbatim>\<open>error\<close> cell that is not empty.
\<close>

theorem aggregate_counts:
  "total_words (fst (aggregate_results dir)) =
     sum_list (map (\<lambda>f. length (snd f)) (filter (\<lambda>f. endswith (fst f) [46, 99, 115, 118]) dir)) \<and>
   success_words (fst (aggregate_results dir)) + error_words (fst (aggregate_results dir)) =
     total_words (fst (aggregate_results dir)) \<and>
   snd (aggregate_results dir) =
     concat (map snd (filter (\<lambda>f. endswith (fst f) [46, 99, 115, 118]) dir)) \<and>
   error_words (fst (aggregate_results dir)) =
     length (filter (\<lambda>e. \<exists>v. map_of e ''error'' = Some (Val v)) (snd (aggregate_results dir)))"
proof -
  let ?all = "collect_csv dir []"
  have t: "length ?all =
      sum_list (map (\<lambda>f. length (snd f)) (filter (\<lambda>f. endswith (fst f) [46, 99, 115, 118]) dir))"
    by (simp add: collect_csv_eq length_concat comp_def)
  have le: "length (filter counts_as_success ?all) \<le> length ?all" by simp
  have "length ?all = length (filter counts_as_success ?all) +
          length (filter (\<lambda>e. \<not> counts_as_success e) ?all)"
    by (rule sum_length_filter_compl[symmetric])
  then have e: "length ?all - length (filter counts_as_success ?all) =
      length (filter (\<lambda>e. \<exists>v. map_of e ''error'' = Some (Val v)) ?all)"
    by (simp add: error_or_success)
  show ?thesis
    using t le e by (simp add: aggregate_results_def Let_def collect_csv_eq)
qed

theorem aggregate_counts_witness:
  "aggregate_results
     [([98, 49, 46, 99, 115, 118],
         [[(''word'', Val [97]), (''reason'', Val [114]), (''error'', NaN)],
          [(''word'', Val [98]), (''reason'', NaN), (''error'', Val [120])]]),
      ([110, 111, 116, 101, 115], [[(''word'', Val [122])]]),
      ([98, 50, 46, 99, 115, 118], [[(''word'', Val [99]), (''reason'', Val [114])]])] =
   (\<lparr>filename = [102, 105, 110, 97, 108, 95, 114, 101, 115, 117, 108, 116, 115, 46, 99, 115, 118],
     total_words = 3, success_words = 2, error_words = 1\<rparr>,
    [[(''word'', Val [97]), (''reason'', Val [114]), (''error'', NaN)],
     [(''word'', Val [98]), (''reason'', NaN), (''error'', Val [120])],
     [(''word'', Val [99]), (''reason'', Val [114])]])"
proof -
  note t = aggregate_counts[of "[([98, 49, 46, 99, 115, 118],
         [[(''word'', Val [97]), (''reason'', Val [114]), (''error'', NaN)],
          [(''word'', Val [98]), (''reason'', NaN), (''error'', Val [120])]]),
      ([110, 111, 116, 101, 115], [[(''word'', Val [122])]]),
      ([98, 50, 46, 99, 115, 118], [[(''word'', Val [99]), (''reason'', Val [114])]])]"]
  from t[THEN conjunct1] show ?thesis
    by (simp add: aggregate_results_def endswith_def counts_as_success_def Let_def)
qed

section \<open>Claims about the batch runner\<close>



text \<open>
  Claim C3, as amended. When every attempt of the request for a batch raises (as many
  attempts as the retry limit, at least one), the loop body writes one error record per
  word of the batch to the error artifact of the batch, each with the text of the
  exception that reaches \<^verbatim>\<open>main\<close>, which is the error of the retry decorator and
  names the outcome of the last attempt; sets the pointer of the progress record to the
  start offset of the batch plus the batch size, which is an advance by the batch size
  when the batch starts at the pointer; appends the batch number to the completed
  batches; writes the progress record; and pauses. No later run started from that
  progress record makes a request or writes an artifact for this batch number. As
  stated the claim fails when completed batches were skipped before the attempt: the
  pointer then advances by more than the batch size.
\<close>

theorem failed_batch_recorded:
  assumes "0 < BATCH_SIZE E"
    and "i div BATCH_SIZE E + 1 \<notin> pb"
    and "\<forall>k<max 1 (MAX_RETRIES E).
           isl (client E (requests s + k) (build_prompt E (take (BATCH_SIZE E) (drop i words))))"
  shows "batch_step E words pb s i =
       s\<lparr>prog := (prog s)\<lparr>last_index := i + BATCH_SIZE E,
                            batches := batches (prog s) @ [i div BATCH_SIZE E + 1]\<rparr>,
         trace := trace s @
           failed_attempts (MAX_RETRIES E - 1) (i div BATCH_SIZE E + 1)
             (build_prompt E (take (BATCH_SIZE E) (drop i words))) @
           [WriteErrors (i div BATCH_SIZE E + 1)
              (map (\<lambda>w. [(''word'', w),
                         (''error'', retry_error_text
                            (future_id E (requests s + (MAX_RETRIES E - 1))))])
                 (take (BATCH_SIZE E) (drop i words))),
            WriteProgress ((prog s)\<lparr>last_index := i + BATCH_SIZE E,
                            batches := batches (prog s) @ [i div BATCH_SIZE E + 1]\<rparr>),
            Sleep],
         requests := requests s + max 1 (MAX_RETRIES E)\<rparr> \<and>
     (last_index (prog s) = i \<longrightarrow>
        last_index (prog (batch_step E words pb s i)) = last_index (prog s) + BATCH_SIZE E) \<and>
     (\<forall>E' words' s'.
        main E' words' (Some (prog (batch_step E words pb s i))) = Inr s' \<longrightarrow>
        (\<forall>e\<in>set (trace s'). event_batch e \<noteq> Some (i div BATCH_SIZE E + 1)))"
proof -
  let ?bn = "i div BATCH_SIZE E + 1"
  let ?batch = "take (BATCH_SIZE E) (drop i words)"
  let ?prompt = "build_prompt E ?batch"
  let ?n = "MAX_RETRIES E - 1"
  let ?p' = "(prog s)\<lparr>last_index := i + BATCH_SIZE E, batches := batches (prog s) @ [?bn]\<rparr>"
  let ?txt = "retry_error_text (future_id E (requests s + ?n))"
  have n: "Suc ?n = max 1 (MAX_RETRIES E)" by simp
  have f: "\<forall>k\<le>?n. isl (client E (requests s + k) ?prompt)"
  proof (intro allI impI)
    fix k assume "k \<le> ?n"
    then have "k < max 1 (MAX_RETRIES E)" using n by linarith
    with assms(3) show "isl (client E (requests s + k) ?prompt)" by blast
  qed
  have r: "process_batch_retry E ?batch ?bn s =
     (Inl ?txt,
      s\<lparr>trace := trace s @ failed_attempts ?n ?bn ?prompt, requests := requests s + Suc ?n\<rparr>)"
    unfolding process_batch_retry_def using retrying_all_fail[OF f, of ?bn] by simp
  have step: "batch_step E words pb s i =
       s\<lparr>prog := ?p',
         trace := trace s @ failed_attempts ?n ?bn ?prompt @
           [WriteErrors ?bn (map (\<lambda>w. [(''word'', w), (''error'', ?txt)]) ?batch),
            WriteProgress ?p', Sleep],
         requests := requests s + max 1 (MAX_RETRIES E)\<rparr>"
    using assms(2) r n
    by (simp add: batch_step_def batch_failed_def error_entry_def Let_def
        del: max.absorb1 max.absorb2 max.absorb3 max.absorb4)
  have adv: "last_index (prog s) = i \<longrightarrow>
        last_index (prog (batch_step E words pb s i)) = last_index (prog s) + BATCH_SIZE E"
    by (simp add: step)
  have fut: "\<forall>e\<in>set (trace s'). event_batch e \<noteq> Some ?bn"
    if "main E' words' (Some (prog (batch_step E words pb s i))) = Inr s'" for E' words' s'
  proof -
    have "?bn \<in> set (batches (load_progress (Some (prog (batch_step E words pb s i)))))"
      by (simp add: step load_progress_def)
    with main_events_fresh[OF that] show ?thesis by blast
  qed
  from step adv fut show ?thesis by blast
qed

theorem failed_batch_recorded_witness:
  "0 < BATCH_SIZE \<lparr>BATCH_SIZE = 2, MAX_RETRIES = 3, template = [], client = (\<lambda>k p. Inl [120]), future_id = (\<lambda>k. 4096 + k), unicode_nd = (\<lambda>c. False)\<rparr> \<and>
   0 div BATCH_SIZE \<lparr>BATCH_SIZE = 2, MAX_RETRIES = 3, template = [], client = (\<lambda>k p. Inl [120]), future_id = (\<lambda>k. 4096 + k), unicode_nd = (\<lambda>c. False)\<rparr> + 1 \<notin> ({} :: nat set) \<and>
   max 1 (MAX_RETRIES \<lparr>BATCH_SIZE = 2, MAX_RETRIES = 3, template = [], client = (\<lambda>k p. Inl [120]), future_id = (\<lambda>k. 4096 + k), unicode_nd = (\<lambda>c. False)\<rparr>) = 3 \<and>
   isl (client \<lparr>BATCH_SIZE = 2, MAX_RETRIES = 3, template = [], client = (\<lambda>k p. Inl [120]), future_id = (\<lambda>k. 4096 + k), unicode_nd = (\<lambda>c. False)\<rparr> (requests \<lparr>prog = \<lparr>last_index = 0, processed = 0, batches = []\<rparr>, trace = [], requests = 0\<rparr> + 0) (build_prompt \<lparr>BATCH_SIZE = 2, MAX_RETRIES = 3, template = [], client = (\<lambda>k p. Inl [120]), future_id = (\<lambda>k. 4096 + k), unicode_nd = (\<lambda>c. False)\<rparr> [[97], [98]])) \<and>
   isl (client \<lparr>BATCH_SIZE = 2, MAX_RETRIES = 3, template = [], client = (\<lambda>k p. Inl [120]), future_id = (\<lambda>k. 4096 + k), unicode_nd = (\<lambda>c. False)\<rparr> (requests \<lparr>prog = \<lparr>last_index = 0, processed = 0, batches = []\<rparr>, trace = [], requests = 0\<rparr> + 1) (build_prompt \<lparr>BATCH_SIZE = 2, MAX_RETRIES = 3, template = [], client = (\<lambda>k p. Inl [120]), future_id = (\<lambda>k. 4096 + k), unicode_nd = (\<lambda>c. False)\<rparr> [[97], [98]])) \<and>
   isl (client \<lparr>BATCH_SIZE = 2, MAX_RETRIES = 3, template = [], client = (\<lambda>k p. Inl [120]), future_id = (\<lambda>k. 4096 + k), unicode_nd = (\<lambda>c. False)\<rparr> (requests \<lparr>prog = \<lparr>last_index = 0, processed = 0, batches = []\<rparr>, trace = [], requests = 0\<rparr> + 2) (build_prompt \<lparr>BATCH_SIZE = 2, MAX_RETRIES = 3, template = [], client = (\<lambda>k p. Inl [120]), future_id = (\<lambda>k. 4096 + k), unicode_nd = (\<lambda>c. False)\<rparr> [[97], [98]])) \<and>
   batch_step \<lparr>BATCH_SIZE = 2, MAX_RETRIES = 3, template = [], client = (\<lambda>k p. Inl [120]), future_id = (\<lambda>k. 4096 + k), unicode_nd = (\<lambda>c. False)\<rparr> ([[97], [98], [99]] :: nat list list) {} \<lparr>prog = \<lparr>last_index = 0, processed = 0, batches = []\<rparr>, trace = [], requests = 0\<rparr> 0 =
     \<lparr>prog = \<lparr>last_index = 2, processed = 0, batches = [1]\<rparr>,
       trace = [ApiCall 1 (build_prompt \<lparr>BATCH_SIZE = 2, MAX_RETRIES = 3, template = [], client = (\<lambda>k p. Inl [120]), future_id = (\<lambda>k. 4096 + k), unicode_nd = (\<lambda>c. False)\<rparr> [[97], [98]]), Backoff 1,
                ApiCall 1 (build_prompt \<lparr>BATCH_SIZE = 2, MAX_RETRIES = 3, template = [], client = (\<lambda>k p. Inl [120]), future_id = (\<lambda>k. 4096 + k), unicode_nd = (\<lambda>c. False)\<rparr> [[97], [98]]), Backoff 1,
                ApiCall 1 (build_prompt \<lparr>BATCH_SIZE = 2, MAX_RETRIES = 3, template = [], client = (\<lambda>k p. Inl [120]), future_id = (\<lambda>k. 4096 + k), unicode_nd = (\<lambda>c. False)\<rparr> [[97], [98]]),
                WriteErrors 1 [[(''word'', [97]), (''error'', retry_error_text 4098)],
                               [(''word'', [98]), (''error'', retry_error_text 4098)]],
                WriteProgress \<lparr>last_index = 2, processed = 0, batches = [1]\<rparr>,
                Sleep],
       requests = 3\<rparr> \<and>
   retry_error_text 4098 =
     [82, 101, 116, 114, 121, 69, 114, 114, 111, 114, 91, 60, 70, 117, 116, 117, 114, 101, 32,
      97, 116, 32, 48, 120, 49, 48, 48, 50,
      32, 115, 116, 97, 116, 101, 61, 102, 105, 110, 105, 115, 104, 101, 100, 32, 114, 97, 105,
      115, 101, 100, 32, 69, 120, 99, 101, 112, 116, 105, 111, 110, 62, 93]"
proof -
  let ?E = "\<lparr>BATCH_SIZE = 2, MAX_RETRIES = 3, template = [], client = (\<lambda>k p. Inl [120]), future_id = (\<lambda>k. 4096 + k), unicode_nd = (\<lambda>c. False)\<rparr>"
  let ?init = "\<lparr>prog = \<lparr>last_index = 0, processed = 0, batches = []\<rparr>, trace = [], requests = 0\<rparr>"
  have h1: "0 < BATCH_SIZE ?E" by simp
  have h2: "0 div BATCH_SIZE ?E + 1 \<notin> ({} :: nat set)" by simp
  have h3: "\<forall>k<max 1 (MAX_RETRIES ?E).
      isl (client ?E (requests ?init + k)
        (build_prompt ?E (take (BATCH_SIZE ?E) (drop 0 ([[97], [98], [99]] :: nat list list)))))" by simp
  note st = failed_batch_recorded[OF h1 h2 h3, THEN conjunct1]
  have fa: "failed_attempts 2 n p = [ApiCall n p, Backoff n, ApiCall n p, Backoff n, ApiCall n p]" for n p
    by (simp add: numeral_2_eq_2)
  have a: "batch_step ?E ([[97], [98], [99]] :: nat list list) {} ?init 0 =
     \<lparr>prog = \<lparr>last_index = 2, processed = 0, batches = [1]\<rparr>,
       trace = [ApiCall 1 (build_prompt ?E [[97], [98]]), Backoff 1,
                ApiCall 1 (build_prompt ?E [[97], [98]]), Backoff 1,
                ApiCall 1 (build_prompt ?E [[97], [98]]),
                WriteErrors 1 [[(''word'', [97]), (''error'', retry_error_text 4098)],
                               [(''word'', [98]), (''error'', retry_error_text 4098)]],
                WriteProgress \<lparr>last_index = 2, processed = 0, batches = [1]\<rparr>,
                Sleep],
       requests = 3\<rparr>"
    unfolding st by (simp add: fa)
  have b: "retry_error_text 4098 =
     [82, 101, 116, 114, 121, 69, 114, 114, 111, 114, 91, 60, 70, 117, 116, 117, 114, 101, 32,
      97, 116, 32, 48, 120, 49, 48, 48, 50,
      32, 115, 116, 97, 116, 101, 61, 102, 105, 110, 105, 115, 104, 101, 100, 32, 114, 97, 105,
      115, 101, 100, 32, 69, 120, 99, 101, 112, 116, 105, 111, 110, 62, 93]"
    by (simp add: retry_error_text_def show_hex_4098)
  from a b h1 h2 show ?thesis by simp
qed

theorem failed_batch_recorded_counterexample:
  "main \<lparr>BATCH_SIZE = 2, MAX_RETRIES = 3, template = [], client = (\<lambda>k p. Inl [120]), future_id = (\<lambda>k. 4096 + k), unicode_nd = (\<lambda>c. False)\<rparr> [[97], [98], [99], [100], [101], [102], [103], [104], [105], [106]]
     (Some \<lparr>last_index = 4, processed = 4, batches = [1, 2, 3, 4]\<rparr>) =
   Inr \<lparr>prog = \<lparr>last_index = 10, processed = 4, batches = [1, 2, 3, 4, 5]\<rparr>,
        trace = [ApiCall 5 (build_prompt \<lparr>BATCH_SIZE = 2, MAX_RETRIES = 3, template = [], client = (\<lambda>k p. Inl [120]), future_id = (\<lambda>k. 4096 + k), unicode_nd = (\<lambda>c. False)\<rparr> [[105], [106]]), Backoff 5,
                 ApiCall 5 (build_prompt \<lparr>BATCH_SIZE = 2, MAX_RETRIES = 3, template = [], client = (\<lambda>k p. Inl [120]), future_id = (\<lambda>k. 4096 + k), unicode_nd = (\<lambda>c. False)\<rparr> [[105], [106]]), Backoff 5,
                 ApiCall 5 (build_prompt \<lparr>BATCH_SIZE = 2, MAX_RETRIES = 3, template = [], client = (\<lambda>k p. Inl [120]), future_id = (\<lambda>k. 4096 + k), unicode_nd = (\<lambda>c. False)\<rparr> [[105], [106]]),
                 WriteErrors 5 [[(''word'', [105]), (''error'', retry_error_text 4098)],
                                [(''word'', [106]), (''error'', retry_error_text 4098)]],
                 WriteProgress \<lparr>last_index = 10, processed = 4, batches = [1, 2, 3, 4, 5]\<rparr>,
                 Sleep, Aggregate],
        requests = 3\<rparr> \<and>
   retry_error_text 4098 =
     [82, 101, 116, 114, 121, 69, 114, 114, 111, 114, 91, 60, 70, 117, 116, 117, 114, 101, 32,
      97, 116, 32, 48, 120, 49, 48, 48, 50,
      32, 115, 116, 97, 116, 101, 61, 102, 105, 110, 105, 115, 104, 101, 100, 32, 114, 97, 105,
      115, 101, 100, 32, 69, 120, 99, 101, 112, 116, 105, 111, 110, 62, 93]"
proof -
  have r: "py_range 4 10 2 = [4, 6, 8]" by (simp add: py_range.simps)
  have len: "length ([[97], [98], [99], [100], [101], [102], [103], [104], [105], [106]] :: nat list list) = 10"
    by simp
  have b: "retry_error_text 4098 =
     [82, 101, 116, 114, 121, 69, 114, 114, 111, 114, 91, 60, 70, 117, 116, 117, 114, 101, 32,
      97, 116, 32, 48, 120, 49, 48, 48, 50,
      32, 115, 116, 97, 116, 101, 61, 102, 105, 110, 105, 115, 104, 101, 100, 32, 114, 97, 105,
      115, 101, 100, 32, 69, 120, 99, 101, 112, 116, 105, 111, 110, 62, 93]"
    by (simp add: retry_error_text_def show_hex_4098)
  have a: "main \<lparr>BATCH_SIZE = 2, MAX_RETRIES = 3, template = [], client = (\<lambda>k p. Inl [120]), future_id = (\<lambda>k. 4096 + k), unicode_nd = (\<lambda>c. False)\<rparr> [[97], [98], [99], [100], [101], [102], [103], [104], [105], [106]]
     (Some \<lparr>last_index = 4, processed = 4, batches = [1, 2, 3, 4]\<rparr>) =
   Inr \<lparr>prog = \<lparr>last_index = 10, processed = 4, batches = [1, 2, 3, 4, 5]\<rparr>,
        trace = [ApiCall 5 (build_prompt \<lparr>BATCH_SIZE = 2, MAX_RETRIES = 3, template = [], client = (\<lambda>k p. Inl [120]), future_id = (\<lambda>k. 4096 + k), unicode_nd = (\<lambda>c. False)\<rparr> [[105], [106]]), Backoff 5,
                 ApiCall 5 (build_prompt \<lparr>BATCH_SIZE = 2, MAX_RETRIES = 3, template = [], client = (\<lambda>k p. Inl [120]), future_id = (\<lambda>k. 4096 + k), unicode_nd = (\<lambda>c. False)\<rparr> [[105], [106]]), Backoff 5,
                 ApiCall 5 (build_prompt \<lparr>BATCH_SIZE = 2, MAX_RETRIES = 3, template = [], client = (\<lambda>k p. Inl [120]), future_id = (\<lambda>k. 4096 + k), unicode_nd = (\<lambda>c. False)\<rparr> [[105], [106]]),
                 WriteErrors 5 [[(''word'', [105]), (''error'', retry_error_text 4098)],
                                [(''word'', [106]), (''error'', retry_error_text 4098)]],
                 WriteProgress \<lparr>last_index = 10, processed = 4, batches = [1, 2, 3, 4, 5]\<rparr>,
                 Sleep, Aggregate],
        requests = 3\<rparr>"
    apply (simp only: main_def load_progress_def Let_def len option.case)
    apply (simp add: r batch_step_def process_batch_retry_def
        retrying_numeral process_batch_def batch_failed_def error_entry_def Let_def)
    done
  from a b show ?thesis by (rule conjI)
qed

text \<open>
  Claim C8, as amended. Start from a progress record whose pointer is a multiple of the
  (positive) batch size and in which no completed batch number lies beyond the pointer.
  Then every offset of the loop is attempted, the progress record is written once per
  attempt, and the pointers written are the initial pointer plus one, two, three batch
  sizes and so on: each attempt, successful or failed, advances the pointer by exactly
  the batch size, and every pointer written is a multiple of the batch size. The
  completed batches written are the initial ones with one more batch number appended
  per attempt. For any attempt, whatever the state: the new pointer is the start offset
  plus the batch size, one batch number is appended, and the trace of the attempt ends
  with the write of exactly the new progress record, followed only by the pause. As
  stated the claim fails when a batch number beyond the pointer is already marked
  completed: the skipped offsets make the next attempt advance the pointer by more than
  one batch size.
\<close>

theorem progress_advances:
  assumes "0 < BATCH_SIZE E"
    and "BATCH_SIZE E dvd last_index p"
    and "\<forall>n\<in>set (batches p). n \<le> last_index p div BATCH_SIZE E"
  shows "\<exists>s. main E words (Some p) = Inr s \<and>
     map last_index (persisted (trace s)) =
       map (\<lambda>j. last_index p + Suc j * BATCH_SIZE E)
         [0..<(length words - last_index p + BATCH_SIZE E - 1) div BATCH_SIZE E] \<and>
     map batches (persisted (trace s)) =
       map (\<lambda>j. batches p @ map (\<lambda>i. last_index p div BATCH_SIZE E + Suc i) [0..<Suc j])
         [0..<(length words - last_index p + BATCH_SIZE E - 1) div BATCH_SIZE E] \<and>
     last_index (prog s) =
       last_index p +
       (length words - last_index p + BATCH_SIZE E - 1) div BATCH_SIZE E * BATCH_SIZE E \<and>
     batches (prog s) =
       batches p @ map (\<lambda>i. last_index p div BATCH_SIZE E + Suc i)
         [0..<(length words - last_index p + BATCH_SIZE E - 1) div BATCH_SIZE E] \<and>
     BATCH_SIZE E dvd last_index (prog s) \<and>
     (\<forall>q\<in>set (persisted (trace s)). BATCH_SIZE E dvd last_index q) \<and>
     (\<forall>st i pb. i div BATCH_SIZE E + 1 \<notin> pb \<longrightarrow>
        last_index (prog (batch_step E words pb st i)) = i + BATCH_SIZE E \<and>
        batches (prog (batch_step E words pb st i)) = batches (prog st) @ [i div BATCH_SIZE E + 1] \<and>
        (\<exists>evs. trace (batch_step E words pb st i) =
           trace st @ evs @ [WriteProgress (prog (batch_step E words pb st i)), Sleep] \<and>
           persisted evs = []))"
proof -
  let ?bs = "BATCH_SIZE E"
  let ?k = "last_index p"
  let ?m = "(length words - ?k + ?bs - 1) div ?bs"
  let ?pb = "set (batches p)"
  let ?init = "\<lparr>prog = p, trace = [], requests = 0\<rparr>"
  let ?l = "foldl (batch_step E words ?pb) ?init (map (\<lambda>j. ?k + j * ?bs) [0..<?m])"
  let ?fin = "if length words \<le> last_index (prog ?l) then ?l\<lparr>trace := trace ?l @ [Aggregate]\<rparr> else ?l"
  have m: "main E words (Some p) = Inr ?fin"
    using assms(1) by (simp add: main_def load_progress_def Let_def py_range_eq)
  have k: "last_index (prog ?init) = ?k" by simp
  note cr = clean_run[OF assms(1) assms(3) k, of words ?m]
  have pf: "persisted (trace ?fin) = persisted (trace ?l)"
    by (simp add: persisted_append)
  have gf: "prog ?fin = prog ?l" by simp
  have a1: "map last_index (persisted (trace ?fin)) = map (\<lambda>j. ?k + Suc j * ?bs) [0..<?m]"
    unfolding pf using cr by simp
  have a2: "map batches (persisted (trace ?fin)) =
       map (\<lambda>j. batches p @ map (\<lambda>i. ?k div ?bs + Suc i) [0..<Suc j]) [0..<?m]"
    unfolding pf using cr by simp
  have a3: "last_index (prog ?fin) = ?k + ?m * ?bs" unfolding gf using cr by simp
  have a4: "batches (prog ?fin) = batches p @ map (\<lambda>i. ?k div ?bs + Suc i) [0..<?m]"
    unfolding gf using cr by simp
  have a5: "?bs dvd last_index (prog ?fin)" unfolding a3 using assms(2) by simp
  have a6: "\<forall>q\<in>set (persisted (trace ?fin)). ?bs dvd last_index q"
  proof
    fix q assume "q \<in> set (persisted (trace ?fin))"
    then have "last_index q \<in> set (map last_index (persisted (trace ?fin)))" by simp
    then obtain j where "last_index q = ?k + Suc j * ?bs" unfolding a1 by auto
    then show "?bs dvd last_index q" using assms(2) by simp
  qed
  have a7: "last_index (prog (batch_step E words pb st i)) = i + ?bs \<and>
        batches (prog (batch_step E words pb st i)) = batches (prog st) @ [i div ?bs + 1] \<and>
        (\<exists>evs. trace (batch_step E words pb st i) =
           trace st @ evs @ [WriteProgress (prog (batch_step E words pb st i)), Sleep] \<and>
           persisted evs = [])" if f: "i div ?bs + 1 \<notin> pb" for st i pb
  proof -
    from batch_step_attempt[OF f, of words st] obtain evs where
      e: "last_index (prog (batch_step E words pb st i)) = i + ?bs"
         "batches (prog (batch_step E words pb st i)) = batches (prog st) @ [i div ?bs + 1]"
         "trace (batch_step E words pb st i) =
            trace st @ (ApiCall (i div ?bs + 1) (build_prompt E (take ?bs (drop i words))) # evs) @
            [WriteProgress (prog (batch_step E words pb st i)), Sleep]"
         "\<forall>e\<in>set evs. event_batch e = Some (i div ?bs + 1)"
      by auto
    have "\<forall>e\<in>set (ApiCall (i div ?bs + 1) (build_prompt E (take ?bs (drop i words))) # evs).
        event_batch e \<noteq> None" using e(4) by auto
    then have "persisted (ApiCall (i div ?bs + 1) (build_prompt E (take ?bs (drop i words))) # evs) = []"
      by (rule persisted_tagged)
    with e(1,2,3) show ?thesis by blast
  qed
  show ?thesis using m a1 a2 a3 a4 a5 a6 a7 by blast
qed

theorem progress_advances_witness:
  "0 < BATCH_SIZE \<lparr>BATCH_SIZE = 2, MAX_RETRIES = 3, template = [], client = (\<lambda>k p. Inr []), future_id = (\<lambda>k. 4096 + k), unicode_nd = (\<lambda>c. False)\<rparr> \<and>
   BATCH_SIZE \<lparr>BATCH_SIZE = 2, MAX_RETRIES = 3, template = [], client = (\<lambda>k p. Inr []), future_id = (\<lambda>k. 4096 + k), unicode_nd = (\<lambda>c. False)\<rparr> dvd last_index \<lparr>last_index = 0, processed = 0, batches = []\<rparr> \<and>
   set (batches \<lparr>last_index = 0, processed = 0, batches = []\<rparr>) = {} \<and>
   (\<exists>s. main \<lparr>BATCH_SIZE = 2, MAX_RETRIES = 3, template = [], client = (\<lambda>k p. Inr []), future_id = (\<lambda>k. 4096 + k), unicode_nd = (\<lambda>c. False)\<rparr> ([[97], [98], [99]] :: nat list list) (Some \<lparr>last_index = 0, processed = 0, batches = []\<rparr>) = Inr s \<and>
      map last_index (persisted (trace s)) = [2, 4] \<and>
      map batches (persisted (trace s)) = [[1], [1, 2]] \<and>
      last_index (prog s) = 4 \<and> batches (prog s) = [1, 2])"
proof -
  let ?E = "\<lparr>BATCH_SIZE = 2, MAX_RETRIES = 3, template = [], client = (\<lambda>k p. Inr []), future_id = (\<lambda>k. 4096 + k), unicode_nd = (\<lambda>c. False)\<rparr>"
  let ?p = "\<lparr>last_index = 0, processed = 0, batches = []\<rparr>"
  have h1: "0 < BATCH_SIZE ?E" by simp
  have h2: "BATCH_SIZE ?E dvd last_index ?p" by simp
  have h3: "\<forall>n\<in>set (batches ?p). n \<le> last_index ?p div BATCH_SIZE ?E" by simp
  have m: "(length ([[97], [98], [99]] :: nat list list) - last_index ?p + BATCH_SIZE ?E - 1) div BATCH_SIZE ?E = 2" by simp
  have u: "[0..<2] = [0, Suc 0]" by (simp add: upt_rec)
  from progress_advances[OF h1 h2 h3, of "([[97], [98], [99]] :: nat list list)"] obtain s where
    s: "main ?E ([[97], [98], [99]] :: nat list list) (Some ?p) = Inr s"
    and a: "map last_index (persisted (trace s)) =
       map (\<lambda>j. last_index ?p + Suc j * BATCH_SIZE ?E)
         [0..<(length ([[97], [98], [99]] :: nat list list) - last_index ?p + BATCH_SIZE ?E - 1) div BATCH_SIZE ?E]"
    and b: "map batches (persisted (trace s)) =
       map (\<lambda>j. batches ?p @ map (\<lambda>i. last_index ?p div BATCH_SIZE ?E + Suc i) [0..<Suc j])
         [0..<(length ([[97], [98], [99]] :: nat list list) - last_index ?p + BATCH_SIZE ?E - 1) div BATCH_SIZE ?E]"
    and c: "last_index (prog s) =
       last_index ?p +
       (length ([[97], [98], [99]] :: nat list list) - last_index ?p + BATCH_SIZE ?E - 1) div BATCH_SIZE ?E * BATCH_SIZE ?E"
    and d: "batches (prog s) =
       batches ?p @ map (\<lambda>i. last_index ?p div BATCH_SIZE ?E + Suc i)
         [0..<(length ([[97], [98], [99]] :: nat list list) - last_index ?p + BATCH_SIZE ?E - 1) div BATCH_SIZE ?E]"
    by blast
  have a': "map last_index (persisted (trace s)) = [2, 4]" unfolding a m u by simp
  have b': "map batches (persisted (trace s)) = [[1], [1, 2]]" unfolding b m u by (simp add: upt_rec)
  have c': "last_index (prog s) = 4" unfolding c m by simp
  have d': "batches (prog s) = [1, 2]" unfolding d m u by simp
  have h4: "set (batches ?p) = {}" by simp
  show ?thesis by (intro conjI exI[of _ s] h1 h2 h4 s a' b' c' d')
qed

theorem progress_advances_counterexample:
  "BATCH_SIZE \<lparr>BATCH_SIZE = 2, MAX_RETRIES = 3, template = [], client = (\<lambda>k p. Inr []), future_id = (\<lambda>k. 4096 + k), unicode_nd = (\<lambda>c. False)\<rparr> dvd last_index \<lparr>last_index = 4, processed = 4, batches = [1, 2, 3, 4]\<rparr> \<and>
   main \<lparr>BATCH_SIZE = 2, MAX_RETRIES = 3, template = [], client = (\<lambda>k p. Inr []), future_id = (\<lambda>k. 4096 + k), unicode_nd = (\<lambda>c. False)\<rparr> ([[97], [98], [99], [100], [101], [102], [103], [104], [105], [106]] :: nat list list)
     (Some \<lparr>last_index = 4, processed = 4, batches = [1, 2, 3, 4]\<rparr>) =
   Inr \<lparr>prog = \<lparr>last_index = 10, processed = 6, batches = [1, 2, 3, 4, 5]\<rparr>,
        trace = [ApiCall 5 (build_prompt \<lparr>BATCH_SIZE = 2, MAX_RETRIES = 3, template = [], client = (\<lambda>k p. Inr []), future_id = (\<lambda>k. 4096 + k), unicode_nd = (\<lambda>c. False)\<rparr> [[105], [106]]),
                 WriteResults 5
                   [[(''word'', [105]), (''error'', MSG_PARSE_PREFIX @ MSG_FORMAT), (''raw_response'', [])],
                    [(''word'', [106]), (''error'', MSG_MISSING), (''raw_response'', [46, 46, 46])]],
                 WriteErrors 5
                   [[(''word'', [105]), (''error'', MSG_PARSE_PREFIX @ MSG_FORMAT), (''raw_response'', [])],
                    [(''word'', [106]), (''error'', MSG_MISSING), (''raw_response'', [46, 46, 46])]],
                 WriteProgress \<lparr>last_index = 10, processed = 6, batches = [1, 2, 3, 4, 5]\<rparr>,
                 Sleep, Aggregate],
        requests = 1\<rparr>"
proof -
  have r: "py_range 4 10 2 = [4, 6, 8]" by (simp add: py_range.simps)
  have len: "length ([[97], [98], [99], [100], [101], [102], [103], [104], [105], [106]] :: nat list list) = 10"
    by simp
  have pr: "parse_response (\<lambda>c. False) [] [[105], [106]] =
      Inr [[(''word'', [105]), (''error'', MSG_PARSE_PREFIX @ MSG_FORMAT), (''raw_response'', [])],
           [(''word'', [106]), (''error'', MSG_MISSING), (''raw_response'', [46, 46, 46])]]"
    by (simp add: parser_defs)
  have ie: "is_error [(''word'', w), (''error'', m), (''raw_response'', x)]" for w m x
    by (simp add: is_error_def)
  show ?thesis
    apply (simp only: main_def load_progress_def Let_def len option.case)
    apply (simp add: r batch_step_def process_batch_retry_def
        retrying_numeral process_batch_def batch_succeeded_def pr ie Let_def)
    done
qed

end
